theory Spec2Isabelle
  imports Main "HOL-Library.Word" "HOL-Library.Monad_Syntax"
begin

unbundle bit_operations_syntax

section \<open>Modified UTF-8 codec of \<^verbatim>\<open>src/hotspot/share/utilities/utf8.cpp\<close>\<close>

text \<open>
  The C++ types of the source are fixed-width machine integers: \<^verbatim>\<open>u_char\<close> and
  \<^verbatim>\<open>unsigned char\<close> are 8-bit words, \<^verbatim>\<open>jbyte\<close> is a signed 8-bit word (read with
  \<open>sint\<close>), \<^verbatim>\<open>jchar\<close> and \<^verbatim>\<open>unsigned short\<close> are 16-bit words, \<^verbatim>\<open>jint\<close> is a 32-bit
  word. Shifts are \<open>push_bit\<close> (\<^verbatim>\<open><<\<close>) and \<open>drop_bit\<close> (\<^verbatim>\<open>>>\<close>).

  A byte buffer is a list of bytes; a pointer into it is an index. Indices and sizes
  (\<^verbatim>\<open>size_t\<close>) are natural numbers: every index the code forms is at most a few bytes past
  the length of an existing buffer, so the 64-bit wrap-around of \<^verbatim>\<open>size_t\<close> is never
  reached. A read or write outside the buffer is undefined behaviour in C++; here it
  is the value \<open>None\<close>.
\<close>

type_synonym u_char = "8 word"
type_synonym jbyte = "8 word"
type_synonym jchar = "16 word"
type_synonym jint = "32 word"

datatype error = AssertionFailure | ShouldNotReachHere | OutOfBounds

definition load :: "u_char list \<Rightarrow> nat \<Rightarrow> u_char option" where
  "load mem a = (if a < length mem then Some (mem ! a) else None)"

definition store :: "u_char list \<Rightarrow> nat \<Rightarrow> u_char \<Rightarrow> u_char list option" where
  "store mem a v = (if a < length mem then Some (mem[a := v]) else None)"

subsection \<open>Encoding one code unit: \<^verbatim>\<open>utf8_write\<close>, \<^verbatim>\<open>UNICODE::utf8_size\<close>\<close>

text \<open>
  \<^verbatim>\<open>static u_char* utf8_write(u_char* base, jchar ch)\<close> stores one, two or three bytes at
  \<^verbatim>\<open>base\<close> and returns the end pointer. The C++ computes \<^verbatim>\<open>ch >> 6\<close> and \<^verbatim>\<open>ch & 0x3F\<close> in
  \<^verbatim>\<open>int\<close> and narrows to a byte: \<open>ucast\<close> keeps the low 8 bits. In the three-byte branch
  the source's temporaries are \<^verbatim>\<open>char\<close>; only their low 8 bits reach the buffer, so the
  signedness of \<^verbatim>\<open>char\<close> does not matter.
\<close>

definition utf8_write :: "u_char list \<Rightarrow> nat \<Rightarrow> jchar \<Rightarrow> (u_char list \<times> nat) option" where
  "utf8_write mem base ch =
    (if ch \<noteq> 0 \<and> ch \<le> 0x7f then
       do { m0 \<leftarrow> store mem base (ucast ch);
            Some (m0, base + 1) }
     else if ch \<le> 0x7FF then
       (let high_five = (ucast (drop_bit 6 ch) :: u_char);
            low_six = (ucast (ch AND 0x3F) :: u_char)
        in do { m0 \<leftarrow> store mem base (high_five OR 0xC0);
                m1 \<leftarrow> store m0 (base + 1) (low_six OR 0x80);
                Some (m1, base + 2) })
     else
       (let high_four = (ucast (drop_bit 12 ch) :: u_char);
            mid_six = (ucast (drop_bit 6 ch AND 0x3F) :: u_char);
            low_six = (ucast (ch AND 0x3f) :: u_char)
        in do { m0 \<leftarrow> store mem base (high_four OR 0xE0);
                m1 \<leftarrow> store m0 (base + 1) (mid_six OR 0x80);
                m2 \<leftarrow> store m1 (base + 2) (low_six OR 0x80);
                Some (m2, base + 3) }))"

text \<open>\<^verbatim>\<open>size_t UNICODE::utf8_size(jchar c)\<close>.\<close>

definition utf8_size :: "jchar \<Rightarrow> nat" where
  "utf8_size c = (if 0x0001 \<le> c \<and> c \<le> 0x007F then 1 else if c \<le> 0x07FF then 2 else 3)"

text \<open>\<^verbatim>\<open>size_t UNICODE::utf8_length(const T* base, int length)\<close> at \<^verbatim>\<open>T = jchar\<close>: the array
  \<^verbatim>\<open>base[0..length)\<close> is the list of code units.\<close>

fun utf8_length_loop :: "jchar list \<Rightarrow> nat \<Rightarrow> nat" where
  "utf8_length_loop [] result = result"
| "utf8_length_loop (c # cs) result = utf8_length_loop cs (result + utf8_size c)"

definition utf8_length :: "jchar list \<Rightarrow> nat" where
  "utf8_length base = utf8_length_loop base 0"

subsection \<open>Bulk encoders: \<^verbatim>\<open>UNICODE::convert_to_utf8\<close>, \<^verbatim>\<open>UNICODE::as_utf8\<close>\<close>

fun convert_loop :: "u_char list \<Rightarrow> nat \<Rightarrow> jchar list \<Rightarrow> (u_char list \<times> nat) option" where
  "convert_loop mem utf8_buffer [] = Some (mem, utf8_buffer)"
| "convert_loop mem utf8_buffer (c # cs) =
     do { (m, p) \<leftarrow> utf8_write mem utf8_buffer c;
          convert_loop m p cs }"

text \<open>\<^verbatim>\<open>void UNICODE::convert_to_utf8(const jchar* base, int length, char* utf8_buffer)\<close>:
  the loop, then the terminator.\<close>

definition convert_to_utf8 :: "jchar list \<Rightarrow> u_char list \<Rightarrow> nat \<Rightarrow> u_char list option" where
  "convert_to_utf8 base mem utf8_buffer =
     do { (m, p) \<leftarrow> convert_loop mem utf8_buffer base;
          store m p 0 }"

text \<open>
  \<^verbatim>\<open>char* UNICODE::as_utf8(const jchar* base, int length, char* buf, size_t buflen)\<close>.
  The loop carries the write pointer \<open>p\<close> and the remaining capacity \<open>buflen\<close>; the
  \<^verbatim>\<open>break\<close> leaves the loop with both as they are.
\<close>

fun as_utf8_loop :: "u_char list \<Rightarrow> nat \<Rightarrow> nat \<Rightarrow> jchar list \<Rightarrow> (u_char list \<times> nat) option" where
  "as_utf8_loop mem p buflen [] = Some (mem, p)"
| "as_utf8_loop mem p buflen (c # cs) =
     (let sz = utf8_size c in
      if sz \<ge> buflen then Some (mem, p)
      else do { (m, p') \<leftarrow> utf8_write mem p c;
                as_utf8_loop m p' (buflen - sz) cs })"

definition as_utf8 :: "jchar list \<Rightarrow> u_char list \<Rightarrow> nat \<Rightarrow> nat \<Rightarrow> error + u_char list" where
  "as_utf8 base mem buf buflen =
     (if \<not> buflen > 0 then Inl AssertionFailure
      else case as_utf8_loop mem buf buflen base of
             None \<Rightarrow> Inl OutOfBounds
           | Some (m, p) \<Rightarrow> (case store m p 0 of None \<Rightarrow> Inl OutOfBounds | Some m' \<Rightarrow> Inr m'))"

subsection \<open>Supplementary characters\<close>

text \<open>
  \<^verbatim>\<open>bool UTF8::is_supplementary_character(const unsigned char* str)\<close>: the conjunction
  is evaluated left to right and stops at the first false conjunct, so the later bytes
  are read only when the earlier ones match.
\<close>

definition is_supplementary_character :: "u_char list \<Rightarrow> nat \<Rightarrow> bool option" where
  "is_supplementary_character mem str =
     do { b0 \<leftarrow> load mem str;
          if b0 AND 0xFF \<noteq> 0xED then Some False else
     do { b1 \<leftarrow> load mem (str + 1);
          if b1 AND 0xF0 \<noteq> 0xA0 then Some False else
     do { b2 \<leftarrow> load mem (str + 2);
          if b2 AND 0xC0 \<noteq> 0x80 then Some False else
     do { b3 \<leftarrow> load mem (str + 3);
          if b3 AND 0xFF \<noteq> 0xED then Some False else
     do { b4 \<leftarrow> load mem (str + 4);
          if b4 AND 0xF0 \<noteq> 0xB0 then Some False else
     do { b5 \<leftarrow> load mem (str + 5);
          Some (b5 AND 0xC0 = 0x80) } } } } } }"

text \<open>\<^verbatim>\<open>jint UTF8::get_supplementary_character(const unsigned char* str)\<close>: the bytes are
  promoted to \<^verbatim>\<open>int\<close> before the shifts.\<close>

definition get_supplementary_character :: "u_char list \<Rightarrow> nat \<Rightarrow> jint option" where
  "get_supplementary_character mem str =
     do { b1 \<leftarrow> load mem (str + 1);
          b2 \<leftarrow> load mem (str + 2);
          b4 \<leftarrow> load mem (str + 4);
          b5 \<leftarrow> load mem (str + 5);
          Some (0x10000 + push_bit 16 (ucast (b1 AND 0x0f)) + push_bit 10 (ucast (b2 AND 0x3f))
                        + push_bit 6 (ucast (b4 AND 0x0f)) + ucast (b5 AND 0x3f)) }"

subsection \<open>The validator: \<^verbatim>\<open>UTF8::is_legal_utf8\<close>\<close>

text \<open>
  The first loop of \<^verbatim>\<open>is_legal_utf8\<close>: blocks of four bytes, \<open>k\<close> counts the blocks and
  \<open>i\<close> is the index reached. The C++ evaluates \<^verbatim>\<open>b0 | (b0 - 1) | ...\<close> in \<^verbatim>\<open>int\<close> and
  narrows the result to \<^verbatim>\<open>unsigned char\<close>; the low 8 bits of that are the 8-bit
  expression with wrap-around, which is what the word operations compute.
\<close>

function fast_path :: "u_char list \<Rightarrow> nat \<Rightarrow> nat \<Rightarrow> nat \<Rightarrow> nat" where
  "fast_path buffer count k i =
     (if k < count then
        (let b0 = buffer ! i; b1 = buffer ! (i + 1); b2 = buffer ! (i + 2); b3 = buffer ! (i + 3);
             res = b0 OR (b0 - 1) OR b1 OR (b1 - 1) OR b2 OR (b2 - 1) OR b3 OR (b3 - 1)
         in if res \<ge> 128 then i else fast_path buffer count (k + 1) (i + 4))
      else i)"
  by pat_completeness auto
termination
  by (relation "measure (\<lambda>(buffer, count, k, i). count - k)") auto

text \<open>
  The second loop, from index \<open>i\<close>. Each recursive call is at the index the \<^verbatim>\<open>for\<close> loop
  has after its \<^verbatim>\<open>i++\<close>. The variable \<^verbatim>\<open>c\<close> is an \<^verbatim>\<open>unsigned short\<close>. Every read is at an
  index below \<open>length\<close>, which the code checks before it reads.
\<close>

function legal_loop :: "u_char list \<Rightarrow> nat \<Rightarrow> bool \<Rightarrow> nat \<Rightarrow> bool" where
  "legal_loop buffer len version_leq_47 i =
     (if i < len then
        if buffer ! i = 0 then False
        else if buffer ! i < 128 then legal_loop buffer len version_leq_47 (i + 1)
        else if i + 5 < len \<and> is_supplementary_character buffer i = Some True
          then legal_loop buffer len version_leq_47 (i + 5 + 1)
        else
          (let nibble = drop_bit 4 (buffer ! i) in
           if nibble = 0x8 \<or> nibble = 0x9 \<or> nibble = 0xA \<or> nibble = 0xB \<or> nibble = 0xF then False
           else if nibble = 0xC \<or> nibble = 0xD then
             (let c = (push_bit 6 (ucast (buffer ! i AND 0x1F)) :: 16 word); i1 = i + 1 in
              if i1 < len \<and> buffer ! i1 AND 0xC0 = 0x80 then
                (let c' = c + ucast (buffer ! i1 AND 0x3F) in
                 if version_leq_47 \<or> c' = 0 \<or> c' \<ge> 0x80
                 then legal_loop buffer len version_leq_47 (i1 + 1)
                 else False)
              else False)
           else if nibble = 0xE then
             (let c = (push_bit 12 (ucast (buffer ! i AND 0xF)) :: 16 word); i2 = i + 2 in
              if i2 < len \<and> buffer ! (i2 - 1) AND 0xC0 = 0x80 \<and> buffer ! i2 AND 0xC0 = 0x80 then
                (let c' = c + (push_bit 6 (ucast (buffer ! (i2 - 1) AND 0x3F)) + ucast (buffer ! i2 AND 0x3F)) in
                 if version_leq_47 \<or> c' \<ge> 0x800
                 then legal_loop buffer len version_leq_47 (i2 + 1)
                 else False)
              else False)
           else legal_loop buffer len version_leq_47 (i + 1))
      else True)"
  by pat_completeness auto
termination
  by (relation "measure (\<lambda>(buffer, len, v, i). len - i)") auto

definition is_legal_utf8 :: "u_char list \<Rightarrow> nat \<Rightarrow> bool \<Rightarrow> bool" where
  "is_legal_utf8 buffer len version_leq_47 =
     legal_loop buffer len version_leq_47 (fast_path buffer (drop_bit 2 len) 0 0)"

subsection \<open>Decoding one character: \<^verbatim>\<open>UTF8::next\<close>, \<^verbatim>\<open>UTF8::next_character\<close>\<close>

text \<open>
  \<^verbatim>\<open>template<typename T> char* UTF8::next(const char* str, T* value)\<close>, for \<^verbatim>\<open>T = jchar\<close>
  (\<open>'a = 16\<close>) and \<^verbatim>\<open>T = jbyte\<close> (\<open>'a = 8\<close>); the cast \<^verbatim>\<open>(T)\<close> is \<open>ucast\<close>. The switch
  leaves \<^verbatim>\<open>length\<close> at \<^verbatim>\<open>-1\<close> and \<^verbatim>\<open>result\<close> unset on the bad paths: that outcome is
  \<open>None\<close> here, and \<open>Some (result, length)\<close> is a decoded value with its length. The sums
  are computed in \<^verbatim>\<open>int\<close> and assigned to a \<^verbatim>\<open>jchar\<close>; they are below \<open>2 ^ 16\<close>. The
  result is the pair of the value stored through \<^verbatim>\<open>value\<close> and the returned pointer.
\<close>

definition UTF8_next :: "u_char list \<Rightarrow> nat \<Rightarrow> ('a::len word \<times> nat) option" where
  "UTF8_next mem str =
     do { ch \<leftarrow> load mem str;
          r \<leftarrow> (let nibble = drop_bit 4 ch in
                if nibble = 0x8 \<or> nibble = 0x9 \<or> nibble = 0xA \<or> nibble = 0xB \<or> nibble = 0xF
                then Some None
                else if nibble = 0xC \<or> nibble = 0xD then
                  do { ch2 \<leftarrow> load mem (str + 1);
                       if ch2 AND 0xC0 = 0x80 then
                         (let high_five = ch AND 0x1F; low_six = ch2 AND 0x3F
                          in Some (Some (push_bit 6 (ucast high_five) + ucast low_six :: jchar, 2 :: nat)))
                       else Some None }
                else if nibble = 0xE then
                  do { ch2 \<leftarrow> load mem (str + 1);
                       if ch2 AND 0xC0 = 0x80 then
                         do { ch3 \<leftarrow> load mem (str + 2);
                              if ch3 AND 0xC0 = 0x80 then
                                (let high_four = ch AND 0x0f; mid_six = ch2 AND 0x3f;
                                     low_six = ch3 AND 0x3f
                                 in Some (Some (push_bit 6 (push_bit 6 (ucast high_four) + ucast mid_six)
                                                  + ucast low_six, 3)))
                              else Some None }
                       else Some None }
                else Some (Some (ucast ch, 1)));
          case r of
            None \<Rightarrow> Some (ucast ch, str + 1)
          | Some (result, len) \<Rightarrow> Some (ucast result, str + len) }"

text \<open>\<^verbatim>\<open>char* UTF8::next_character(const char* str, jint* value)\<close>; the \<^verbatim>\<open>jchar\<close> result of
  \<^verbatim>\<open>next\<close> is widened to \<^verbatim>\<open>jint\<close>.\<close>

definition next_character :: "u_char list \<Rightarrow> nat \<Rightarrow> (jint \<times> nat) option" where
  "next_character mem str =
     do { s \<leftarrow> is_supplementary_character mem str;
          if s then
            do { v \<leftarrow> get_supplementary_character mem str;
                 Some (v, str + 6) }
          else
            do { (result, next_ch) \<leftarrow> (UTF8_next mem str :: (jchar \<times> nat) option);
                 Some (ucast result, next_ch) } }"

subsection \<open>Counting characters: \<^verbatim>\<open>UTF8::unicode_length\<close> (length-known variant)\<close>

text \<open>
  The loop state is \<open>(num_chars, is_latin1, has_multibyte, prev)\<close>. \<^verbatim>\<open>num_chars\<close> starts
  at \<open>len\<close> and is decremented at most once per byte read, so it never passes below 0.
\<close>

function unicode_length_loop ::
  "u_char list \<Rightarrow> nat \<Rightarrow> nat \<Rightarrow> nat \<times> bool \<times> bool \<times> u_char \<Rightarrow> (nat \<times> bool \<times> bool \<times> u_char) option" where
  "unicode_length_loop str len i (num_chars, is_latin1, has_multibyte, prev) =
     (if i < len then
        (case load str i of
           None \<Rightarrow> None
         | Some c \<Rightarrow>
             if c AND 0xC0 = 0x80 then
               unicode_length_loop str len (i + 1)
                 (num_chars - 1, (if prev > 0xC3 then False else is_latin1), True, c)
             else unicode_length_loop str len (i + 1) (num_chars, is_latin1, has_multibyte, c))
      else Some (num_chars, is_latin1, has_multibyte, prev))"
  by pat_completeness auto
termination
  by (relation "measure (\<lambda>(str, len, i, s). len - i)") auto

text \<open>
  Modelled from the spec: \<^verbatim>\<open>checked_cast<int>\<close> is declared in
  \<^verbatim>\<open>utilities/checkedCast.hpp\<close>, which is not among the sources. The spec gives the result
  of \<^verbatim>\<open>unicode_length\<close> as the character count, so the cast returns its argument when it
  fits an \<^verbatim>\<open>int\<close>; a value that does not fit fails the cast's assertion.
\<close>

definition checked_cast_int :: "nat \<Rightarrow> error + int" where
  "checked_cast_int n = (if n \<le> 2147483647 then Inr (int n) else Inl AssertionFailure)"

text \<open>The result is \<open>(return value, is_latin1, has_multibyte)\<close>.\<close>

definition unicode_length :: "u_char list \<Rightarrow> nat \<Rightarrow> error + (int \<times> bool \<times> bool)" where
  "unicode_length str len =
     (case unicode_length_loop str len 0 (len, True, False, 0) of
        None \<Rightarrow> Inl OutOfBounds
      | Some (num_chars, is_latin1, has_multibyte, prev) \<Rightarrow>
          (case checked_cast_int num_chars of
             Inl e \<Rightarrow> Inl e
           | Inr n \<Rightarrow> Inr (n, is_latin1, has_multibyte)))"

subsection \<open>The truncation repairer: \<^verbatim>\<open>UTF8::truncate_to_legal_utf8\<close>\<close>

definition is_starting_byte :: "u_char \<Rightarrow> bool" where
  "is_starting_byte b \<longleftrightarrow> b \<ge> 0xC0 \<and> b \<le> 0xEF"

text \<open>
  The backward loop \<^verbatim>\<open>for (size_t index = length - 2; index > 0; index--)\<close>: the second
  argument is \<^verbatim>\<open>index\<close>, and the loop ends without a write when it reaches 0. The
  \<^verbatim>\<open>assert\<close>s of the source are the error \<open>AssertionFailure\<close>. The caller passes a buffer
  of at least \<open>length\<close> bytes; every index used is below \<open>length\<close>.
\<close>

fun truncate_scan :: "u_char list \<Rightarrow> nat \<Rightarrow> error + u_char list" where
  "truncate_scan buffer 0 = Inr buffer"
| "truncate_scan buffer (Suc n) =
     (let index = Suc n in
      if is_starting_byte (buffer ! index) then
        if buffer ! index = 0xED then
          if index \<ge> 3 \<and> buffer ! (index - 3) = 0xED \<and> buffer ! (index - 2) AND 0xF0 = 0xA0 then
            if buffer ! (index - 1) \<ge> 0x80 \<and> buffer ! (index - 1) \<le> 0xBF
            then Inr (buffer[index - 3 := 0])
            else Inl AssertionFailure
          else Inr (buffer[index := 0])
        else Inr (buffer[index := 0])
      else truncate_scan buffer n)"

definition truncate_to_legal_utf8 :: "u_char list \<Rightarrow> nat \<Rightarrow> error + u_char list" where
  "truncate_to_legal_utf8 buffer len =
     (if \<not> len > 5 then Inl AssertionFailure
      else if \<not> buffer ! (len - 1) = 0 then Inl AssertionFailure
      else if buffer ! (len - 2) < 128 then Inr buffer
      else truncate_scan buffer (len - 2))"

subsection \<open>The auto-sizing overload of \<^verbatim>\<open>UNICODE::as_utf8\<close>\<close>

text \<open>
  \<^verbatim>\<open>strlen\<close> of the C library: the number of bytes before the first \<open>0x00\<close> at or after
  \<open>s\<close>; without one inside the buffer the read runs out of bounds.
\<close>

definition strlen :: "u_char list \<Rightarrow> nat \<Rightarrow> nat option" where
  "strlen mem s =
     (let n = length (takeWhile (\<lambda>b. b \<noteq> 0) (drop s mem))
      in if s + n < length mem then Some n else None)"

text \<open>
  \<^verbatim>\<open>template<typename T> char* UNICODE::as_utf8(const T* base, size_t& length)\<close> at
  \<^verbatim>\<open>T = jchar\<close>. \<^verbatim>\<open>NEW_RESOURCE_ARRAY(u_char, utf8_len + 1)\<close> is a fresh array of that many
  bytes with unspecified contents: \<open>junk\<close> gives the byte found at each index. The result
  is the array and the outgoing \<^verbatim>\<open>length\<close>.
\<close>

definition as_utf8_alloc :: "jchar list \<Rightarrow> (nat \<Rightarrow> u_char) \<Rightarrow> error + (u_char list \<times> nat)" where
  "as_utf8_alloc base junk =
     (let utf8_len = utf8_length base;
          buf = map junk [0..<utf8_len + 1]
      in case as_utf8 base buf 0 (utf8_len + 1) of
           Inl e \<Rightarrow> Inl e
         | Inr result \<Rightarrow>
             if strlen result 0 = Some utf8_len then Inr (result, utf8_len)
             else Inl AssertionFailure)"

subsection \<open>Code points and their UTF-16 code units\<close>

text \<open>
  The encoder works on code units; a code point above \<open>0xFFFF\<close> reaches it as the two
  code units of its UTF-16 surrogate pair (spec, section 8: \<open>U+1F600\<close> is the pair
  \<open>0xD83D 0xDE00\<close>). This is the input side of the round trip, not a function of the
  source.
\<close>

definition utf16_units :: "nat \<Rightarrow> jchar list" where
  "utf16_units p =
     (if p < 0x10000 then [of_nat p]
      else [of_nat (0xD800 + (p - 0x10000) div 0x400), of_nat (0xDC00 + (p - 0x10000) mod 0x400)])"

text \<open>The byte counts of the table in section 6 of the spec.\<close>

definition table_size :: "nat \<Rightarrow> nat" where
  "table_size p =
     (if p = 0 then 2 else if p \<le> 0x7F then 1 else if p \<le> 0x7FF then 2
      else if p \<le> 0xFFFF then 3 else 6)"

subsection \<open>The bytes of one code unit\<close>

text \<open>
  The list of bytes that \<^verbatim>\<open>utf8_write\<close> stores for one code unit, in the order it stores
  them: the same three branches and the same expressions, without the buffer. Lemma
  \<open>utf8_write_eq\<close> below proves that \<^verbatim>\<open>utf8_write\<close> stores exactly these bytes.
\<close>

definition utf8_bytes :: "jchar \<Rightarrow> u_char list" where
  "utf8_bytes ch =
    (if ch \<noteq> 0 \<and> ch \<le> 0x7f then [ucast ch]
     else if ch \<le> 0x7FF then [ucast (drop_bit 6 ch) OR 0xC0, ucast (ch AND 0x3F) OR 0x80]
     else [ucast (drop_bit 12 ch) OR 0xE0, ucast (drop_bit 6 ch AND 0x3F) OR 0x80, ucast (ch AND 0x3f) OR 0x80])"


text \<open>The bytes of a sequence of code units, unit after unit: what the bulk encoders
  write before the terminator (lemma \<open>convert_loop_eq\<close>).\<close>

definition utf8_encode :: "jchar list \<Rightarrow> u_char list" where
  "utf8_encode base = concat (map utf8_bytes base)"

text \<open>The six-byte pattern that \<^verbatim>\<open>is_supplementary_character\<close> tests, on the unsigned
  values of the bytes (lemma \<open>is_supp_unat\<close>).\<close>

definition supp_pattern :: "u_char list \<Rightarrow> nat \<Rightarrow> bool" where
  "supp_pattern mem i \<longleftrightarrow>
     unat (mem ! i) = 237 \<and> 160 \<le> unat (mem ! (i + 1)) \<and> unat (mem ! (i + 1)) \<le> 175
     \<and> 128 \<le> unat (mem ! (i + 2)) \<and> unat (mem ! (i + 2)) \<le> 191
     \<and> unat (mem ! (i + 3)) = 237 \<and> 176 \<le> unat (mem ! (i + 4)) \<and> unat (mem ! (i + 4)) \<le> 191
     \<and> 128 \<le> unat (mem ! (i + 5)) \<and> unat (mem ! (i + 5)) \<le> 191"

text \<open>The code units that the loop of \<^verbatim>\<open>as_utf8\<close> writes before it stops: the loop
  control of \<open>as_utf8_loop\<close> alone (lemma \<open>as_utf8_loop_eq\<close>).\<close>

fun as_utf8_fit :: "nat \<Rightarrow> jchar list \<Rightarrow> jchar list" where
  "as_utf8_fit buflen [] = []"
| "as_utf8_fit buflen (c # cs) =
     (if utf8_size c \<ge> buflen then [] else c # as_utf8_fit (buflen - utf8_size c) cs)"

subsection \<open>The \<^verbatim>\<open>jbyte\<close> instantiation of the encoders\<close>

text \<open>
  \<^verbatim>\<open>size_t UNICODE::utf8_size(jbyte c)\<close>: \<^verbatim>\<open>jbyte\<close> is signed, so the comparison
  \<^verbatim>\<open>c >= 0x01\<close> reads the byte with \<open>sint\<close>.
\<close>

definition utf8_size_jbyte :: "jbyte \<Rightarrow> nat" where
  "utf8_size_jbyte c = (if sint c \<ge> 0x01 then 1 else 2)"

text \<open>\<^verbatim>\<open>size_t UNICODE::utf8_length(const T* base, int length)\<close> at \<^verbatim>\<open>T = jbyte\<close>.\<close>

fun utf8_length_jbyte_loop :: "jbyte list \<Rightarrow> nat \<Rightarrow> nat" where
  "utf8_length_jbyte_loop [] result = result"
| "utf8_length_jbyte_loop (c # cs) result = utf8_length_jbyte_loop cs (result + utf8_size_jbyte c)"

definition utf8_length_jbyte :: "jbyte list \<Rightarrow> nat" where
  "utf8_length_jbyte base = utf8_length_jbyte_loop base 0"

text \<open>
  \<^verbatim>\<open>char* UNICODE::as_utf8(const jbyte* base, int length, char* buf, size_t buflen)\<close>.
  A unit of size 1 is stored as it is (\<^verbatim>\<open>*p++ = c\<close>: the same eight bits). Any other unit
  passes the assertion \<^verbatim>\<open>sz == 2\<close> and goes to \<^verbatim>\<open>utf8_write\<close> as \<^verbatim>\<open>((jchar) c) & 0xff\<close>:
  the conversion of a signed byte to \<^verbatim>\<open>jchar\<close> extends the sign (\<open>scast\<close>), the mask keeps
  the low eight bits.
\<close>

fun as_utf8_jbyte_loop ::
  "u_char list \<Rightarrow> nat \<Rightarrow> nat \<Rightarrow> jbyte list \<Rightarrow> error + (u_char list \<times> nat)" where
  "as_utf8_jbyte_loop mem p buflen [] = Inr (mem, p)"
| "as_utf8_jbyte_loop mem p buflen (c # cs) =
     (let sz = utf8_size_jbyte c in
      if sz \<ge> buflen then Inr (mem, p)
      else if sz = 1 then
        (case store mem p c of
           None \<Rightarrow> Inl OutOfBounds
         | Some m \<Rightarrow> as_utf8_jbyte_loop m (p + 1) (buflen - sz) cs)
      else if sz \<noteq> 2 then Inl AssertionFailure
      else
        (case utf8_write mem p (scast c AND 0xff) of
           None \<Rightarrow> Inl OutOfBounds
         | Some (m, p') \<Rightarrow> as_utf8_jbyte_loop m p' (buflen - sz) cs))"

definition as_utf8_jbyte :: "jbyte list \<Rightarrow> u_char list \<Rightarrow> nat \<Rightarrow> nat \<Rightarrow> error + u_char list" where
  "as_utf8_jbyte base mem buf buflen =
     (if \<not> buflen > 0 then Inl AssertionFailure
      else case as_utf8_jbyte_loop mem buf buflen base of
             Inl e \<Rightarrow> Inl e
           | Inr (m, p) \<Rightarrow> (case store m p 0 of None \<Rightarrow> Inl OutOfBounds | Some m' \<Rightarrow> Inr m'))"

text \<open>
  \<^verbatim>\<open>template<typename T> char* UNICODE::as_utf8(const T* base, size_t& length)\<close> at
  \<^verbatim>\<open>T = jbyte\<close>: the body of \<open>as_utf8_alloc\<close> with the \<^verbatim>\<open>jbyte\<close> overloads of
  \<^verbatim>\<open>utf8_length\<close> and \<^verbatim>\<open>as_utf8\<close>.
\<close>

definition as_utf8_alloc_jbyte :: "jbyte list \<Rightarrow> (nat \<Rightarrow> u_char) \<Rightarrow> error + (u_char list \<times> nat)" where
  "as_utf8_alloc_jbyte base junk =
     (let utf8_len = utf8_length_jbyte base;
          buf = map junk [0..<utf8_len + 1]
      in case as_utf8_jbyte base buf 0 (utf8_len + 1) of
           Inl e \<Rightarrow> Inl e
         | Inr result \<Rightarrow>
             if strlen result 0 = Some utf8_len then Inr (result, utf8_len)
             else Inl AssertionFailure)"

text \<open>The bytes that the loop of the \<^verbatim>\<open>jbyte\<close> writer stores for one unit and for a
  sequence of units, without the buffer (lemma \<open>as_utf8_jbyte_step\<close>), and the units
  that the loop writes before it stops.\<close>

definition utf8_bytes_jbyte :: "jbyte \<Rightarrow> u_char list" where
  "utf8_bytes_jbyte c = (if utf8_size_jbyte c = 1 then [c] else utf8_bytes (scast c AND 0xff))"

definition utf8_encode_jbyte :: "jbyte list \<Rightarrow> u_char list" where
  "utf8_encode_jbyte base = concat (map utf8_bytes_jbyte base)"

fun as_utf8_fit_jbyte :: "nat \<Rightarrow> jbyte list \<Rightarrow> jbyte list" where
  "as_utf8_fit_jbyte buflen [] = []"
| "as_utf8_fit_jbyte buflen (c # cs) =
     (if utf8_size_jbyte c \<ge> buflen then [] else c # as_utf8_fit_jbyte (buflen - utf8_size_jbyte c) cs)"

subsection \<open>The quoted-ASCII reader: \<^verbatim>\<open>UTF8::from_quoted_ascii\<close>\<close>

text \<open>
  \<^verbatim>\<open>const char* UTF8::from_quoted_ascii(const char* quoted_ascii_str)\<close> (compiled in
  non-product builds). Its loops have no bound that the code decreases, so each is a
  partial function: the value \<open>None\<close> means that the loop does not return.

  The first loop, \<^verbatim>\<open>while (*ptr != '\0') { char c = *ptr; if (c < 32 || c >= 127) break; }\<close>,
  has no statement that changes \<^verbatim>\<open>ptr\<close>: the recursive call has the same \<open>ptr\<close>. A byte
  from \<open>0x80\<close> up leaves the loop whether \<^verbatim>\<open>char\<close> is signed (\<^verbatim>\<open>c < 32\<close>) or unsigned
  (\<^verbatim>\<open>c >= 127\<close>), so the test is on the unsigned value. The result is \<open>ptr\<close> at the exit.
\<close>

partial_function (option) scan_printable :: "u_char list \<Rightarrow> nat \<Rightarrow> (error + nat) option" where
  "scan_printable str ptr =
     (case load str ptr of
        None \<Rightarrow> Some (Inl OutOfBounds)
      | Some c \<Rightarrow>
          if c \<noteq> 0 then
            if unat c < 32 \<or> unat c \<ge> 127 then Some (Inr ptr)
            else scan_printable str ptr
          else Some (Inr ptr))"

text \<open>
  The four hexadecimal digits after \<^verbatim>\<open>\u\<close>: \<^verbatim>\<open>for (int i=0; i<4; i++) { char c = *ptr++; ... }\<close>
  with \<open>k\<close> the iterations left. \<^verbatim>\<open>value\<close> is a \<^verbatim>\<open>jchar\<close>: the sum computed in \<^verbatim>\<open>int\<close> is
  narrowed to 16 bits by the assignment.
\<close>

fun hex_digits :: "u_char list \<Rightarrow> nat \<Rightarrow> nat \<Rightarrow> jchar \<Rightarrow> error + (jchar \<times> nat)" where
  "hex_digits str ptr 0 v = Inr (v, ptr)"
| "hex_digits str ptr (Suc k) v =
     (case load str ptr of
        None \<Rightarrow> Inl OutOfBounds
      | Some c \<Rightarrow>
          if 0x30 \<le> c \<and> c \<le> 0x39 then hex_digits str (ptr + 1) k (push_bit 4 v + ucast c - 0x30)
          else if 0x61 \<le> c \<and> c \<le> 0x66 then hex_digits str (ptr + 1) k (push_bit 4 v + 10 + ucast c - 0x61)
          else if 0x41 \<le> c \<and> c \<le> 0x46 then hex_digits str (ptr + 1) k (push_bit 4 v + 10 + ucast c - 0x41)
          else Inl ShouldNotReachHere)"

text \<open>
  The inner loop \<^verbatim>\<open>while (*ptr != '\0') { ... }\<close> of one round, on the state \<^verbatim>\<open>ptr\<close>,
  \<^verbatim>\<open>length\<close> and \<^verbatim>\<open>buffer\<close> (\<open>None\<close> is \<^verbatim>\<open>nullptr\<close>). The branch \<^verbatim>\<open>*ptr != '\\'\<close> stores the
  byte if there is a buffer and increments \<^verbatim>\<open>length\<close>; it does not change \<^verbatim>\<open>ptr\<close>. The
  escapes \<^verbatim>\<open>\t \n \r \f\<close> advance \<^verbatim>\<open>ptr\<close> by 2, \<^verbatim>\<open>\u\<close> by 6. Without a buffer \<^verbatim>\<open>\u\<close> writes
  into the local \<^verbatim>\<open>char utf8_buffer[4]\<close> and only the end pointer is used. \<^verbatim>\<open>length\<close> is a
  \<^verbatim>\<open>size_t\<close>, kept as a natural number: no branch of the loop without a buffer reads
  it, and with a buffer every store at an index past the buffer is out of bounds
  before the counter can wrap.
\<close>

partial_function (option) unquote_loop ::
  "u_char list \<Rightarrow> nat \<Rightarrow> nat \<Rightarrow> u_char list option \<Rightarrow> (error + nat \<times> u_char list option) option" where
  "unquote_loop str ptr len buffer =
     (case load str ptr of
        None \<Rightarrow> Some (Inl OutOfBounds)
      | Some c \<Rightarrow>
          if c = 0 then Some (Inr (len, buffer))
          else if c \<noteq> 0x5C then
            (case buffer of
               None \<Rightarrow> unquote_loop str ptr (len + 1) None
             | Some b \<Rightarrow>
                 (case store b len c of
                    None \<Rightarrow> Some (Inl OutOfBounds)
                  | Some b' \<Rightarrow> unquote_loop str ptr (len + 1) (Some b')))
          else
            (case load str (ptr + 1) of
               None \<Rightarrow> Some (Inl OutOfBounds)
             | Some e \<Rightarrow>
                 if e = 0x75 then
                   (case hex_digits str (ptr + 2) 4 0 of
                      Inl err \<Rightarrow> Some (Inl err)
                    | Inr (v, ptr') \<Rightarrow>
                        (case buffer of
                           None \<Rightarrow>
                             (case utf8_write (replicate 4 0) 0 v of
                                None \<Rightarrow> Some (Inl OutOfBounds)
                              | Some (m, nxt) \<Rightarrow> unquote_loop str ptr' (len + nxt) None)
                         | Some b \<Rightarrow>
                             (case utf8_write b len v of
                                None \<Rightarrow> Some (Inl OutOfBounds)
                              | Some (b', nxt) \<Rightarrow> unquote_loop str ptr' (len + (nxt - len)) (Some b'))))
                 else if e = 0x74 \<or> e = 0x6E \<or> e = 0x72 \<or> e = 0x66 then
                   (let ch = (if e = 0x74 then 0x09 else if e = 0x6E then 0x0A
                              else if e = 0x72 then 0x0D else 0x0C)
                    in case buffer of
                         None \<Rightarrow> unquote_loop str (ptr + 2) (len + 1) None
                       | Some b \<Rightarrow>
                           (case store b len ch of
                              None \<Rightarrow> Some (Inl OutOfBounds)
                            | Some b' \<Rightarrow> unquote_loop str (ptr + 2) (len + 1) (Some b')))
                 else Some (Inl ShouldNotReachHere)))"

text \<open>
  The function returns either the pointer it was given or the new buffer. After the
  first loop it returns the argument if \<^verbatim>\<open>*ptr == '\0'\<close>; otherwise \<^verbatim>\<open>length\<close> starts as
  \<^verbatim>\<open>ptr - quoted_ascii_str\<close>, round 0 runs the inner loop without a buffer, allocates
  \<^verbatim>\<open>length + 1\<close> bytes (unspecified contents \<open>junk\<close>) and resets \<^verbatim>\<open>ptr\<close> but not \<^verbatim>\<open>length\<close>,
  round 1 runs the inner loop with the buffer and stores the terminator.
\<close>

datatype quoted_result = Original | Fresh "u_char list"

definition from_quoted_ascii :: "u_char list \<Rightarrow> (nat \<Rightarrow> u_char) \<Rightarrow> (error + quoted_result) option" where
  "from_quoted_ascii str junk =
     do { r \<leftarrow> scan_printable str 0;
          case r of
            Inl e \<Rightarrow> Some (Inl e)
          | Inr ptr \<Rightarrow>
              (case load str ptr of
                 None \<Rightarrow> Some (Inl OutOfBounds)
               | Some c \<Rightarrow>
                   if c = 0 then Some (Inr Original)
                   else
                     do { r0 \<leftarrow> unquote_loop str ptr ptr None;
                          case r0 of
                            Inl e \<Rightarrow> Some (Inl e)
                          | Inr (len0, b0) \<Rightarrow>
                              do { r1 \<leftarrow> unquote_loop str 0 len0 (Some (map junk [0..<len0 + 1]));
                                   case r1 of
                                     Inl e \<Rightarrow> Some (Inl e)
                                   | Inr (len1, b1) \<Rightarrow>
                                       (case b1 of
                                          None \<Rightarrow> Some (Inl OutOfBounds)
                                        | Some b \<Rightarrow>
                                            (case store b len1 0 of
                                               None \<Rightarrow> Some (Inl OutOfBounds)
                                             | Some b' \<Rightarrow> Some (Inr (Fresh b')))) } }) }"

section \<open>Bytes and code units as numbers\<close>

text \<open>
  The bit-level expressions of the source, read as arithmetic on the unsigned value of
  a byte or a code unit. The facts about a single byte are checked on all 256 bytes.
\<close>

lemma byte_exhaust: 
  assumes "\<forall>n\<in>set [0..<256]. P (of_nat n :: 8 word)" shows "P b"
proof -
  have "unat b < 256" using unsigned_less[of b, where ?'a=nat] by simp
  then have "unat b \<in> set [0..<256]" by simp
  then have "P (of_nat (unat b) :: 8 word)" using assms by blast
  then show ?thesis by simp
qed

lemma unat8_less: "unat (w::8 word) < 256"
  using unsigned_less[of w, where ?'a=nat] by simp
lemma unat16_less: "unat (w::16 word) < 65536"
  using unsigned_less[of w, where ?'a=nat] by simp

lemma unat_ucast_16_8: "unat (ucast (w::16 word) :: 8 word) = unat w mod 256" 
  by (simp add: unsigned_ucast_eq take_bit_eq_mod)
lemma unat_ucast_8_16: "unat (ucast (w::8 word) :: 16 word) = unat w" 
  using unat8_less[of w] by (simp add: unsigned_ucast_eq take_bit_eq_mod)
lemma unat_ucast_8_32: "unat (ucast (w::8 word) :: 32 word) = unat w" 
  using unat8_less[of w] by (simp add: unsigned_ucast_eq take_bit_eq_mod)
lemma unat_drop: "unat (drop_bit n w) = unat w div 2^n" 
proof -
  have "unat (drop_bit n w) = drop_bit n (unat w)" by (rule unat_drop_bit_eq)
  also have "\<dots> = unat w div 2^n" by (rule drop_bit_eq_div)
  finally show ?thesis .
qed
lemma unat_and_3F: "unat ((w::'a::len word) AND 0x3F) = unat w mod 64"
proof -
  have "w AND 0x3F = take_bit 6 w" by (simp only: take_bit_eq_mask mask_eq_exp_minus_1) simp
  then have "unat (w AND 0x3F) = unat (take_bit 6 w)" by simp
  also have "\<dots> = take_bit 6 (unat w)" by (rule unsigned_take_bit_eq)
  also have "\<dots> = unat w mod 2^6" by (rule take_bit_eq_mod)
  finally show ?thesis by simp
qed
lemma unat_and_1F: "unat ((w::'a::len word) AND 0x1F) = unat w mod 32"
proof -
  have "w AND 0x1F = take_bit 5 w" by (simp only: take_bit_eq_mask mask_eq_exp_minus_1) simp
  then have "unat (w AND 0x1F) = unat (take_bit 5 w)" by simp
  also have "\<dots> = take_bit 5 (unat w)" by (rule unsigned_take_bit_eq)
  also have "\<dots> = unat w mod 2^5" by (rule take_bit_eq_mod)
  finally show ?thesis by simp
qed
lemma unat_and_F: "unat ((w::'a::len word) AND 0xF) = unat w mod 16"
proof -
  have "w AND 0xF = take_bit 4 w" by (simp only: take_bit_eq_mask mask_eq_exp_minus_1) simp
  then have "unat (w AND 0xF) = unat (take_bit 4 w)" by simp
  also have "\<dots> = take_bit 4 (unat w)" by (rule unsigned_take_bit_eq)
  also have "\<dots> = unat w mod 2^4" by (rule take_bit_eq_mod)
  finally show ?thesis by simp
qed
lemma unat_push16: "unat (push_bit n (w::16 word)) = (unat w * 2^n) mod 65536"
proof -
  have "unat (push_bit n w) = take_bit 16 (push_bit n (unat w))" using unsigned_push_bit_eq[of n w, where ?'a=nat] by simp
  also have "\<dots> = (unat w * 2^n) mod 65536" by (simp add: take_bit_eq_mod push_bit_eq_mult)
  finally show ?thesis .
qed

lemma unat_or_C0: "unat (x::u_char) \<le> 31 \<Longrightarrow> unat (x OR 0xC0) = 192 + unat x"
proof -
  have "unat x \<le> 31 \<longrightarrow> unat (x OR 0xC0) = 192 + unat x"
    by (rule byte_exhaust[of _ x]) code_simp
  then show "unat x \<le> 31 \<Longrightarrow> unat (x OR 0xC0) = 192 + unat x" by simp
qed
lemma unat_or_80: "unat (x::u_char) \<le> 63 \<Longrightarrow> unat (x OR 0x80) = 128 + unat x"
proof -
  have "unat x \<le> 63 \<longrightarrow> unat (x OR 0x80) = 128 + unat x"
    by (rule byte_exhaust[of _ x]) code_simp
  then show "unat x \<le> 63 \<Longrightarrow> unat (x OR 0x80) = 128 + unat x" by simp
qed
lemma unat_or_E0: "unat (x::u_char) \<le> 15 \<Longrightarrow> unat (x OR 0xE0) = 224 + unat x"
proof -
  have "unat x \<le> 15 \<longrightarrow> unat (x OR 0xE0) = 224 + unat x"
    by (rule byte_exhaust[of _ x]) code_simp
  then show "unat x \<le> 15 \<Longrightarrow> unat (x OR 0xE0) = 224 + unat x" by simp
qed

lemma cont_iff: "((b::u_char) AND 0xC0 = 0x80) \<longleftrightarrow> (128 \<le> unat b \<and> unat b \<le> 191)"
  by (rule byte_exhaust[of _ b]) code_simp
lemma and_F0_iff_A: "((b::u_char) AND 0xF0 = 0xA0) \<longleftrightarrow> (160 \<le> unat b \<and> unat b \<le> 175)"
  by (rule byte_exhaust[of _ b]) code_simp
lemma and_F0_iff_B: "((b::u_char) AND 0xF0 = 0xB0) \<longleftrightarrow> (176 \<le> unat b \<and> unat b \<le> 191)"
  by (rule byte_exhaust[of _ b]) code_simp
lemma and_FF: "((b::u_char) AND 0xFF) = b"
  by (rule byte_exhaust[of _ b]) code_simp
lemma nibble_iff: "(drop_bit 4 (b::u_char) = numeral k) \<longleftrightarrow> (unat b div 16 = numeral k mod 256)"
proof -
  have "(drop_bit 4 b = numeral k) \<longleftrightarrow> unat (drop_bit 4 b) = unat (numeral k :: u_char)"
    by (rule word_unat_eq_iff)
  also have "unat (drop_bit 4 b) = unat b div 16" by (simp only: unat_drop) simp
  also have "unat (numeral k :: u_char) = numeral k mod 256"
    by (simp add: unsigned_numeral take_bit_eq_mod)
  finally show ?thesis .
qed

lemma map_unat_utf8_bytes:
  "map unat (utf8_bytes ch) =
     (let n = unat ch in
      if n \<noteq> 0 \<and> n \<le> 127 then [n]
      else if n \<le> 2047 then [192 + n div 64, 128 + n mod 64]
      else [224 + n div 4096, 128 + n div 64 mod 64, 128 + n mod 64])"
proof -
  let ?n = "unat ch"
  have n: "?n < 65536" by (rule unat16_less)
  have c0: "ch \<noteq> 0 \<longleftrightarrow> ?n \<noteq> 0" by (simp add: unat_eq_0)
  have c1: "ch \<le> 0x7f \<longleftrightarrow> ?n \<le> 127" by (simp add: word_le_nat_alt)
  have c2: "ch \<le> 0x7ff \<longleftrightarrow> ?n \<le> 2047" by (simp add: word_le_nat_alt)
  show ?thesis
  proof (cases "?n \<noteq> 0 \<and> ?n \<le> 127")
    case True
    then show ?thesis by (simp add: utf8_bytes_def c0 c1 unat_ucast_16_8)
  next
    case False
    note nf = this
    show ?thesis
    proof (cases "?n \<le> 2047")
      case True
      have h: "unat (ucast (drop_bit 6 ch) :: u_char) = ?n div 64"
        using True by (simp only: unat_ucast_16_8 unat_drop) simp
      have l: "unat (ucast (ch AND 0x3F) :: u_char) = ?n mod 64"
        by (simp only: unat_ucast_16_8 unat_and_3F) simp
      have "unat (ucast (drop_bit 6 ch) OR 0xC0 :: u_char) = 192 + ?n div 64"
        using True h by (subst unat_or_C0) auto
      moreover have "unat (ucast (ch AND 0x3F) OR 0x80 :: u_char) = 128 + ?n mod 64"
        using l by (subst unat_or_80) auto
      ultimately show ?thesis using nf True by (auto simp: utf8_bytes_def c0 c1 c2 Let_def)
    next
      case False
      have h: "unat (ucast (drop_bit 12 ch) :: u_char) = ?n div 4096"
        using n by (simp only: unat_ucast_16_8 unat_drop) simp
      have m: "unat (ucast (drop_bit 6 ch AND 0x3F) :: u_char) = ?n div 64 mod 64"
        by (simp only: unat_ucast_16_8 unat_and_3F unat_drop) simp
      have l: "unat (ucast (ch AND 0x3F) :: u_char) = ?n mod 64"
        by (simp only: unat_ucast_16_8 unat_and_3F) simp
      have "unat (ucast (drop_bit 12 ch) OR 0xE0 :: u_char) = 224 + ?n div 4096"
        using n h by (subst unat_or_E0) auto
      moreover have "unat (ucast (drop_bit 6 ch AND 0x3F) OR 0x80 :: u_char) = 128 + ?n div 64 mod 64"
        using m by (subst unat_or_80) auto
      moreover have "unat (ucast (ch AND 0x3F) OR 0x80 :: u_char) = 128 + ?n mod 64"
        using l by (subst unat_or_80) auto
      ultimately show ?thesis using nf False by (auto simp: utf8_bytes_def c0 c1 c2 Let_def)
    qed
  qed
qed

section \<open>What the encoders write\<close>

lemma word16_one_le: "(1 \<le> (ch::jchar)) \<longleftrightarrow> ch \<noteq> 0"
proof -
  have "(1 \<le> ch) \<longleftrightarrow> (1 \<le> unat ch)" by (simp add: word_le_nat_alt)
  also have "\<dots> \<longleftrightarrow> unat ch \<noteq> 0" by (cases "unat ch") simp_all
  also have "\<dots> \<longleftrightarrow> ch \<noteq> 0" by (simp add: unat_eq_0)
  finally show ?thesis .
qed

lemma utf8_size_alt:
  "utf8_size ch = (if ch \<noteq> 0 \<and> ch \<le> 0x7f then 1 else if ch \<le> 0x7FF then 2 else 3)"
  by (simp add: utf8_size_def word16_one_le)

lemma length_utf8_bytes: "length (utf8_bytes ch) = utf8_size ch"
  by (simp add: utf8_bytes_def utf8_size_alt)

lemma store_append:
  "store (pre @ x # rest) (length pre) v = Some (pre @ v # rest)"
  by (simp add: store_def)

lemma store_append1:
  "store (pre @ a # x # rest) (Suc (length pre)) v = Some (pre @ a # v # rest)"
  using store_append[of "pre @ [a]" x rest v] by simp

lemma store_append2:
  "store (pre @ a # b # x # rest) (Suc (Suc (length pre))) v = Some (pre @ a # b # v # rest)"
  using store_append[of "pre @ [a, b]" x rest v] by simp

lemma store_None: "length mem \<le> a \<Longrightarrow> store mem a v = None"
  by (simp add: store_def)

lemma utf8_write_fits:
  assumes "length old = utf8_size ch"
  shows "utf8_write (pre @ old @ rest) (length pre) ch
           = Some (pre @ utf8_bytes ch @ rest, length pre + utf8_size ch)"
proof -
  have sz: "length (utf8_bytes ch) = length old" using assms by (simp add: length_utf8_bytes)
  consider (one) "ch \<noteq> 0 \<and> ch \<le> 0x7f" | (two) "\<not> (ch \<noteq> 0 \<and> ch \<le> 0x7f)" "ch \<le> 0x7FF"
    | (three) "\<not> (ch \<noteq> 0 \<and> ch \<le> 0x7f)" "\<not> ch \<le> 0x7FF" by blast
  then show ?thesis
  proof cases
    case one
    then obtain x where "old = [x]" using sz by (cases old) (auto simp: utf8_bytes_def)
    with one show ?thesis
      by (simp add: utf8_write_def utf8_bytes_def utf8_size_alt store_append)
  next
    case two
    then obtain x y where "old = [x, y]" using sz
      by (cases old; cases "tl old") (auto simp: utf8_bytes_def)
    with two show ?thesis
      by (simp add: utf8_write_def utf8_bytes_def utf8_size_alt store_append store_append1)
  next
    case three
    then obtain x y z where "old = [x, y, z]" using sz
      by (cases old; cases "tl old"; cases "tl (tl old)") (auto simp: utf8_bytes_def)
    with three show ?thesis
      by (simp add: utf8_write_def utf8_bytes_def utf8_size_alt store_append store_append1 store_append2)
  qed
qed

lemma utf8_write_eq:
  assumes "base + utf8_size ch \<le> length mem"
  shows "utf8_write mem base ch
           = Some (take base mem @ utf8_bytes ch @ drop (base + utf8_size ch) mem, base + utf8_size ch)"
proof -
  let ?old = "take (utf8_size ch) (drop base mem)"
  have m: "mem = take base mem @ ?old @ drop (base + utf8_size ch) mem"
    by (metis append_take_drop_id drop_drop add.commute)
  have l: "length (take base mem) = base" "length ?old = utf8_size ch" using assms by auto
  show ?thesis
    using utf8_write_fits[of ?old ch "take base mem" "drop (base + utf8_size ch) mem"] l m
    by simp
qed

lemma utf8_length_loop_acc: "utf8_length_loop cs r = r + utf8_length_loop cs 0"
proof (induction cs arbitrary: r)
  case Nil show ?case by simp
next
  case (Cons c cs)
  show ?case using Cons.IH[of "r + utf8_size c"] Cons.IH[of "utf8_size c"] by simp
qed

lemma utf8_length_Nil [simp]: "utf8_length [] = 0"
  by (simp add: utf8_length_def)

lemma utf8_length_Cons [simp]: "utf8_length (c # cs) = utf8_size c + utf8_length cs"
  using utf8_length_loop_acc[of cs "utf8_size c"] by (simp add: utf8_length_def)

lemma length_utf8_encode: "length (utf8_encode base) = utf8_length base"
  by (induction base) (simp_all add: utf8_encode_def length_utf8_bytes)

lemma utf8_encode_Nil [simp]: "utf8_encode [] = []"
  by (simp add: utf8_encode_def)

lemma utf8_encode_Cons [simp]: "utf8_encode (c # cs) = utf8_bytes c @ utf8_encode cs"
  by (simp add: utf8_encode_def)

lemma convert_loop_eq:
  "p + utf8_length base \<le> length mem \<Longrightarrow>
   convert_loop mem p base
     = Some (take p mem @ utf8_encode base @ drop (p + utf8_length base) mem, p + utf8_length base)"
proof (induction base arbitrary: mem p)
  case Nil
  then show ?case by simp
next
  case (Cons c cs)
  let ?m = "take p mem @ utf8_bytes c @ drop (p + utf8_size c) mem"
  let ?q = "p + utf8_size c"
  have w: "utf8_write mem p c = Some (?m, ?q)" using Cons.prems by (simp add: utf8_write_eq)
  have len: "length ?m = length mem" using Cons.prems by (simp add: length_utf8_bytes)
  have tk: "take ?q ?m = take p mem @ utf8_bytes c" using Cons.prems by (simp add: length_utf8_bytes)
  have dr: "drop (?q + utf8_length cs) ?m = drop (p + utf8_length (c # cs)) mem"
    using Cons.prems by (simp add: length_utf8_bytes ac_simps)
  have "convert_loop ?m ?q cs
          = Some (take ?q ?m @ utf8_encode cs @ drop (?q + utf8_length cs) ?m, ?q + utf8_length cs)"
    using Cons.prems len by (intro Cons.IH) simp
  then show ?case using w tk dr by (simp add: add.assoc)
qed

lemma convert_to_utf8_eq:
  assumes "p + utf8_length base < length mem"
  shows "convert_to_utf8 base mem p
     = Some (take p mem @ utf8_encode base @ 0 # drop (p + utf8_length base + 1) mem)"
proof -
  let ?n = "p + utf8_length base"
  have "length (take p mem @ utf8_encode base) = ?n" using assms by (simp add: length_utf8_encode)
  moreover have "drop ?n mem = mem ! ?n # drop (?n + 1) mem"
    using assms by (simp add: Cons_nth_drop_Suc)
  ultimately have "store (take p mem @ utf8_encode base @ drop ?n mem) ?n 0
       = Some (take p mem @ utf8_encode base @ 0 # drop (?n + 1) mem)"
    using store_append[of "take p mem @ utf8_encode base" "mem ! ?n" "drop (?n + 1) mem" 0] by simp
  then show ?thesis using assms by (simp add: convert_to_utf8_def convert_loop_eq)
qed

section \<open>The validator's fast path\<close>

declare fast_path.simps [simp del] legal_loop.simps [simp del] unicode_length_loop.simps [simp del]

lemma or_pred_high_bit: "((v::u_char) OR (v - 1)) < 128 \<longleftrightarrow> (0 < v \<and> v < 128)"
  by (rule byte_exhaust[of _ v]) code_simp

lemma less_128_iff_bit: "(v::u_char) < 128 \<longleftrightarrow> \<not> bit v 7"
  by (rule byte_exhaust[of _ v]) code_simp

lemma or_less_128: "((x::u_char) OR y) < 128 \<longleftrightarrow> x < 128 \<and> y < 128"
  by (simp add: less_128_iff_bit bit_or_iff)

lemma block_res_iff:
  "(b0 OR (b0 - 1) OR b1 OR (b1 - 1) OR b2 OR (b2 - 1) OR b3 OR (b3 - 1) \<ge> (128::u_char))
     \<longleftrightarrow> \<not> ((0 < b0 \<and> b0 < 128) \<and> (0 < b1 \<and> b1 < 128) \<and> (0 < b2 \<and> b2 < 128) \<and> (0 < b3 \<and> b3 < 128))"
proof -
  have "(b0 OR (b0 - 1) OR b1 OR (b1 - 1) OR b2 OR (b2 - 1) OR b3 OR (b3 - 1) < (128::u_char))
     \<longleftrightarrow> (b0 OR (b0 - 1)) < 128 \<and> (b1 OR (b1 - 1)) < 128 \<and> (b2 OR (b2 - 1)) < 128 \<and> (b3 OR (b3 - 1)) < 128"
    by (simp only: or_less_128 conj_assoc)
  then show ?thesis by (simp only: or_pred_high_bit not_less[symmetric])
qed

lemma fast_path_inv:
  "i = 4 * k \<Longrightarrow>
   i \<le> fast_path buffer count k i \<and> fast_path buffer count k i \<le> max i (4 * count) \<and>
   (\<forall>j. i \<le> j \<and> j < fast_path buffer count k i \<longrightarrow> 0 < buffer ! j \<and> buffer ! j < 128)"
proof (induction buffer count k i rule: fast_path.induct)
  case (1 buffer count k i)
  show ?case
  proof (cases "k < count")
    case False
    then show ?thesis by (auto simp: fast_path.simps[of buffer count k i])
  next
    case True
    note k = this
    let ?res = "buffer ! i OR (buffer ! i - 1) OR buffer ! (i + 1) OR (buffer ! (i + 1) - 1)
                 OR buffer ! (i + 2) OR (buffer ! (i + 2) - 1) OR buffer ! (i + 3) OR (buffer ! (i + 3) - 1)"
    show ?thesis
    proof (cases "?res \<ge> 128")
      case True
      then show ?thesis using k by (auto simp: fast_path.simps[of buffer count k i] Let_def)
    next
      case False
      then have asc: "(0 < buffer ! i \<and> buffer ! i < 128) \<and> (0 < buffer ! (i + 1) \<and> buffer ! (i + 1) < 128)
          \<and> (0 < buffer ! (i + 2) \<and> buffer ! (i + 2) < 128) \<and> (0 < buffer ! (i + 3) \<and> buffer ! (i + 3) < 128)"
        by (simp only: block_res_iff not_not)
      have eq: "fast_path buffer count k i = fast_path buffer count (k + 1) (i + 4)"
        using k False by (simp add: fast_path.simps[of buffer count k i] Let_def)
      have ih: "i + 4 \<le> fast_path buffer count (k + 1) (i + 4) \<and>
            fast_path buffer count (k + 1) (i + 4) \<le> max (i + 4) (4 * count) \<and>
            (\<forall>j. i + 4 \<le> j \<and> j < fast_path buffer count (k + 1) (i + 4) \<longrightarrow> 0 < buffer ! j \<and> buffer ! j < 128)"
        using "1.IH"[OF k refl refl refl refl refl _ ] False "1.prems" by simp
      have small: "\<And>j. i \<le> j \<Longrightarrow> j < i + 4 \<Longrightarrow> 0 < buffer ! j \<and> buffer ! j < 128"
      proof -
        fix j assume "i \<le> j" "j < i + 4"
        then have "j = i \<or> j = i + 1 \<or> j = i + 2 \<or> j = i + 3" by arith
        then show "0 < buffer ! j \<and> buffer ! j < 128" using asc by auto
      qed
      have "\<forall>j. i \<le> j \<and> j < fast_path buffer count (k + 1) (i + 4) \<longrightarrow> 0 < buffer ! j \<and> buffer ! j < 128"
      proof (intro allI impI)
        fix j assume j: "i \<le> j \<and> j < fast_path buffer count (k + 1) (i + 4)"
        show "0 < buffer ! j \<and> buffer ! j < 128"
        proof (cases "j < i + 4")
          case True then show ?thesis using small j by blast
        next
          case False then show ?thesis using ih j by simp
        qed
      qed
      moreover have "max (i + 4) (4 * count) = max i (4 * count)" using k "1.prems" by simp
      ultimately show ?thesis using ih eq by simp
    qed
  qed
qed

lemma legal_loop_skip_ascii:
  "\<forall>j. i \<le> j \<and> j < r \<longrightarrow> 0 < buffer ! j \<and> buffer ! j < 128 \<Longrightarrow> i \<le> r \<Longrightarrow> r \<le> len \<Longrightarrow>
   legal_loop buffer len v i = legal_loop buffer len v r"
proof (induction "r - i" arbitrary: i)
  case 0
  then show ?case by simp
next
  case (Suc n)
  then have i: "i < r" "i < len" by simp_all
  have b: "0 < buffer ! i \<and> buffer ! i < 128" using Suc.prems(1) i by simp
  then have b0: "buffer ! i \<noteq> 0" by auto
  have "legal_loop buffer len v i = legal_loop buffer len v (i + 1)"
    using i b b0 by (subst legal_loop.simps) simp
  also have "\<dots> = legal_loop buffer len v r"
    using Suc.hyps(2) Suc.prems i by (intro Suc.hyps(1)) auto
  finally show ?case .
qed

lemma is_legal_utf8_no_fast_path:
  "is_legal_utf8 buffer len v = legal_loop buffer len v 0"
proof -
  let ?r = "fast_path buffer (drop_bit 2 len) 0 0"
  have inv: "?r \<le> max 0 (4 * drop_bit 2 len) \<and> (\<forall>j. 0 \<le> j \<and> j < ?r \<longrightarrow> 0 < buffer ! j \<and> buffer ! j < 128)"
    using fast_path_inv[of 0 0 buffer "drop_bit 2 len"] by simp
  have "4 * drop_bit 2 len \<le> len" by (simp add: drop_bit_eq_div)
  with inv have "?r \<le> len" by simp
  then show ?thesis
    using legal_loop_skip_ascii[of 0 ?r buffer len v] inv by (simp add: is_legal_utf8_def)
qed

text \<open>
  Claim C8. The four-byte fast path of \<^verbatim>\<open>UTF8::is_legal_utf8\<close> never changes the verdict.
  For every byte \<open>v\<close>, \<open>v OR (v - 1)\<close> (8-bit wrap-around at \<open>v = 0\<close>) is below 128 exactly when
  \<open>0 < v < 128\<close>; every byte below the index at which the fast path stops is non-NUL
  ASCII, so only blocks of four such bytes are skipped; and \<^verbatim>\<open>is_legal_utf8\<close> returns what
  the byte-by-byte loop returns when it is started at index 0.
\<close>

theorem C8_fast_path_keeps_verdict:
  "(\<forall>v :: u_char. (v OR (v - 1) < 128) = (0 < v \<and> v < 128))
   \<and> (\<forall>j < fast_path buffer (drop_bit 2 len) 0 0. 0 < buffer ! j \<and> buffer ! j < 128)
   \<and> is_legal_utf8 buffer len version_leq_47 = legal_loop buffer len version_leq_47 0"
  using fast_path_inv[of 0 0 buffer "drop_bit 2 len"] 
  by (simp add: or_pred_high_bit is_legal_utf8_no_fast_path)

theorem C8_fast_path_keeps_verdict_witness:
  "fast_path [0x41, 0x42, 0x43, 0x44, 0xC0, 0x80, 0x45, 0x46, 0x47] (drop_bit 2 9) 0 0 = 4
   \<and> list_all (\<lambda>b. 0 < b \<and> b < 128) (take 4 [0x41, 0x42, 0x43, 0x44, 0xC0, 0x80, 0x45, 0x46, 0x47 :: u_char])
   \<and> is_legal_utf8 [0x41, 0x42, 0x43, 0x44, 0xC0, 0x80, 0x45, 0x46, 0x47] 9 False
       = legal_loop [0x41, 0x42, 0x43, 0x44, 0xC0, 0x80, 0x45, 0x46, 0x47] 9 False 0"
proof -
  have f: "fast_path [0x41, 0x42, 0x43, 0x44, 0xC0, 0x80, 0x45, 0x46, 0x47] (drop_bit 2 9) 0 0 = 4"
    by code_simp
  show ?thesis
    using C8_fast_path_keeps_verdict[of "[0x41, 0x42, 0x43, 0x44, 0xC0, 0x80, 0x45, 0x46, 0x47]" 9 False]
    unfolding f by simp
qed

section \<open>The validator loop in arithmetic\<close>

text \<open>One iteration of the byte-by-byte loop, with every bit test replaced by the range
  of byte values it accepts.\<close>

lemma nibble_CD: "(drop_bit 4 (b::u_char) = 0xC \<or> drop_bit 4 b = 0xD) \<longleftrightarrow> (192 \<le> unat b \<and> unat b \<le> 223)"
  by (rule byte_exhaust[of _ b]) code_simp

lemma nibble_E: "(drop_bit 4 (b::u_char) = 0xE) \<longleftrightarrow> (224 \<le> unat b \<and> unat b \<le> 239)"
  by (rule byte_exhaust[of _ b]) code_simp

lemma nibble_bad:
  "(drop_bit 4 (b::u_char) = 0x8 \<or> drop_bit 4 b = 0x9 \<or> drop_bit 4 b = 0xA \<or> drop_bit 4 b = 0xB \<or> drop_bit 4 b = 0xF)
     \<longleftrightarrow> ((128 \<le> unat b \<and> unat b \<le> 191) \<or> 240 \<le> unat b)"
  by (rule byte_exhaust[of _ b]) code_simp

lemma byte_eq_ED: "((b::u_char) = 0xED) \<longleftrightarrow> unat b = 237"
  by (simp add: word_unat_eq_iff)

lemma byte_eq_0: "((b::u_char) = 0) \<longleftrightarrow> unat b = 0"
  by (simp add: unat_eq_0)

lemma byte_less_128: "((b::u_char) < 128) \<longleftrightarrow> unat b < 128"
  by (simp add: word_less_nat_alt)

lemma c2_unat:
  "unat (push_bit 6 (ucast ((b0::u_char) AND 0x1F)) + ucast ((b1::u_char) AND 0x3F) :: 16 word)
     = (unat b0 mod 32) * 64 + unat b1 mod 64"
proof -
  have "unat (push_bit 6 (ucast (b0 AND 0x1F)) + ucast (b1 AND 0x3F) :: 16 word)
      = ((unat b0 mod 32) * 2 ^ 6 mod 65536 + unat b1 mod 64) mod 2 ^ LENGTH(16)"
    by (simp only: unat_word_ariths unat_push16 unat_ucast_8_16 unat_and_1F unat_and_3F)
  also have "\<dots> = (unat b0 mod 32) * 64 + unat b1 mod 64"
    by simp presburger? 
  finally show ?thesis .
qed

lemma c3_unat:
  "unat (push_bit 12 (ucast ((b0::u_char) AND 0xF))
          + (push_bit 6 (ucast ((b1::u_char) AND 0x3F)) + ucast ((b2::u_char) AND 0x3F)) :: 16 word)
     = (unat b0 mod 16) * 4096 + (unat b1 mod 64) * 64 + unat b2 mod 64"
proof -
  have "unat (push_bit 12 (ucast (b0 AND 0xF)) + (push_bit 6 (ucast (b1 AND 0x3F)) + ucast (b2 AND 0x3F)) :: 16 word)
      = ((unat b0 mod 16) * 2 ^ 12 mod 65536
          + ((unat b1 mod 64) * 2 ^ 6 mod 65536 + unat b2 mod 64) mod 2 ^ LENGTH(16)) mod 2 ^ LENGTH(16)"
    by (simp only: unat_word_ariths unat_push16 unat_ucast_8_16 unat_and_F unat_and_3F)
  also have "\<dots> = (unat b0 mod 16) * 4096 + (unat b1 mod 64) * 64 + unat b2 mod 64"
    by simp presburger?
  finally show ?thesis .
qed

lemma is_supp_unat:
  "i + 5 < length mem \<Longrightarrow> is_supplementary_character mem i = Some (supp_pattern mem i)"
  by (auto simp: is_supplementary_character_def load_def and_FF byte_eq_ED and_F0_iff_A and_F0_iff_B cont_iff supp_pattern_def)



lemma legal_loop_unat:
  assumes "len \<le> length buffer"
  shows "legal_loop buffer len v i =
     (if i < len then
        (let b = unat (buffer ! i) in
         if b = 0 then False
         else if b < 128 then legal_loop buffer len v (i + 1)
         else if i + 5 < len \<and> supp_pattern buffer i then legal_loop buffer len v (i + 6)
         else if b < 192 \<or> 240 \<le> b then False
         else if b < 224 then
           i + 1 < len \<and> 128 \<le> unat (buffer ! (i + 1)) \<and> unat (buffer ! (i + 1)) \<le> 191
           \<and> (v \<or> (b mod 32) * 64 + unat (buffer ! (i + 1)) mod 64 = 0
                 \<or> 128 \<le> (b mod 32) * 64 + unat (buffer ! (i + 1)) mod 64)
           \<and> legal_loop buffer len v (i + 2)
         else
           i + 2 < len \<and> 128 \<le> unat (buffer ! (i + 1)) \<and> unat (buffer ! (i + 1)) \<le> 191
           \<and> 128 \<le> unat (buffer ! (i + 2)) \<and> unat (buffer ! (i + 2)) \<le> 191
           \<and> (v \<or> 2048 \<le> (b mod 16) * 4096 + (unat (buffer ! (i + 1)) mod 64) * 64
                              + unat (buffer ! (i + 2)) mod 64)
           \<and> legal_loop buffer len v (i + 3))
      else True)"
proof (cases "i < len")
  case False
  then show ?thesis by (subst legal_loop.simps) simp
next
  case True
  note i = this
  let ?b = "unat (buffer ! i)"
  have b256: "?b < 256" by (rule unat8_less)
  have sup: "i + 5 < len \<Longrightarrow> is_supplementary_character buffer i = Some (supp_pattern buffer i)"
    using assms by (intro is_supp_unat) simp
  have c0: "\<And>c::16 word. (c = 0) \<longleftrightarrow> unat c = 0" by (simp add: unat_eq_0)
  have c80: "\<And>c::16 word. (128 \<le> c) \<longleftrightarrow> 128 \<le> unat c" by (simp add: word_le_nat_alt)
  have c800: "\<And>c::16 word. (2048 \<le> c) \<longleftrightarrow> 2048 \<le> unat c" by (simp add: word_le_nat_alt)
  consider (zero) "?b = 0" | (ascii) "0 < ?b" "?b < 128"
    | (supp) "128 \<le> ?b" "i + 5 < len \<and> supp_pattern buffer i"
    | (bad) "128 \<le> ?b" "\<not> (i + 5 < len \<and> supp_pattern buffer i)" "?b < 192 \<or> 240 \<le> ?b"
    | (two) "\<not> (i + 5 < len \<and> supp_pattern buffer i)" "192 \<le> ?b" "?b < 224"
    | (three) "\<not> (i + 5 < len \<and> supp_pattern buffer i)" "224 \<le> ?b" "?b < 240"
    by linarith
  then show ?thesis
  proof cases
    case zero
    then show ?thesis using i by (subst legal_loop.simps) (simp add: byte_eq_0)
  next
    case ascii
    then show ?thesis using i by (subst legal_loop.simps) (simp add: byte_eq_0 byte_less_128)
  next
    case supp
    then show ?thesis using i sup
      by (subst legal_loop.simps) (simp add: byte_eq_0 byte_less_128 add.commute)
  next
    case bad
    then have nb: "drop_bit 4 (buffer ! i) = 0x8 \<or> drop_bit 4 (buffer ! i) = 0x9 \<or> drop_bit 4 (buffer ! i) = 0xA
        \<or> drop_bit 4 (buffer ! i) = 0xB \<or> drop_bit 4 (buffer ! i) = 0xF"
      by (simp only: nibble_bad) arith
    have ns: "\<not> (i + 5 < len \<and> is_supplementary_character buffer i = Some True)"
      using bad(2) sup by auto
    have nz: "buffer ! i \<noteq> 0" "\<not> buffer ! i < 128" using bad(1) by (simp_all add: byte_eq_0 byte_less_128)
    have "legal_loop buffer len v i = False"
      using i nz ns nb by (subst legal_loop.simps) (simp only: Let_def if_True if_False simp_thms)
    then show ?thesis using i bad by (auto simp: Let_def)
  next
    case two
    have ns: "\<not> (i + 5 < len \<and> is_supplementary_character buffer i = Some True)"
      using two(1) sup by auto
    have nz: "buffer ! i \<noteq> 0" "\<not> buffer ! i < 128" using two(2) by (simp_all add: byte_eq_0 byte_less_128)
    have nb: "\<not> (drop_bit 4 (buffer ! i) = 0x8 \<or> drop_bit 4 (buffer ! i) = 0x9 \<or> drop_bit 4 (buffer ! i) = 0xA
        \<or> drop_bit 4 (buffer ! i) = 0xB \<or> drop_bit 4 (buffer ! i) = 0xF)"
      using two by (simp only: nibble_bad) arith
    have cd: "drop_bit 4 (buffer ! i) = 0xC \<or> drop_bit 4 (buffer ! i) = 0xD"
      using two by (simp only: nibble_CD) arith
    have "legal_loop buffer len v i =
          (if i + 1 < len \<and> buffer ! (i + 1) AND 0xC0 = 0x80 then
             if v \<or> (push_bit 6 (ucast (buffer ! i AND 0x1F)) + ucast (buffer ! (i + 1) AND 0x3F) :: 16 word) = 0
                  \<or> (push_bit 6 (ucast (buffer ! i AND 0x1F)) + ucast (buffer ! (i + 1) AND 0x3F) :: 16 word) \<ge> 0x80
             then legal_loop buffer len v (i + 1 + 1) else False
           else False)"
      using i nz ns nb cd by (subst legal_loop.simps) (simp only: Let_def if_True if_False simp_thms)
    also have "\<dots> = (i + 1 < len \<and> 128 \<le> unat (buffer ! (i + 1)) \<and> unat (buffer ! (i + 1)) \<le> 191
           \<and> (v \<or> (?b mod 32) * 64 + unat (buffer ! (i + 1)) mod 64 = 0
                 \<or> 128 \<le> (?b mod 32) * 64 + unat (buffer ! (i + 1)) mod 64)
           \<and> legal_loop buffer len v (i + 2))"
      by (auto simp add: cont_iff c0 c80 c2_unat simp del: unsigned_eq_0_iff)
    finally show ?thesis using i two by (auto simp: Let_def)
  next
    case three
    have ns: "\<not> (i + 5 < len \<and> is_supplementary_character buffer i = Some True)"
      using three(1) sup by auto
    have nz: "buffer ! i \<noteq> 0" "\<not> buffer ! i < 128" using three(2) by (simp_all add: byte_eq_0 byte_less_128)
    have nb: "\<not> (drop_bit 4 (buffer ! i) = 0x8 \<or> drop_bit 4 (buffer ! i) = 0x9 \<or> drop_bit 4 (buffer ! i) = 0xA
        \<or> drop_bit 4 (buffer ! i) = 0xB \<or> drop_bit 4 (buffer ! i) = 0xF)"
      using three by (simp only: nibble_bad) arith
    have cd: "\<not> (drop_bit 4 (buffer ! i) = 0xC \<or> drop_bit 4 (buffer ! i) = 0xD)"
      using three by (simp only: nibble_CD) arith
    have e: "drop_bit 4 (buffer ! i) = 0xE"
      using three by (simp only: nibble_E) arith
    have "legal_loop buffer len v i =
          (if i + 2 < len \<and> buffer ! (i + 2 - 1) AND 0xC0 = 0x80 \<and> buffer ! (i + 2) AND 0xC0 = 0x80 then
             if v \<or> (push_bit 12 (ucast (buffer ! i AND 0xF))
                       + (push_bit 6 (ucast (buffer ! (i + 2 - 1) AND 0x3F)) + ucast (buffer ! (i + 2) AND 0x3F)) :: 16 word) \<ge> 0x800
             then legal_loop buffer len v (i + 2 + 1) else False
           else False)"
      using i nz ns nb cd e by (subst legal_loop.simps) (simp only: Let_def if_True if_False simp_thms)
    also have "\<dots> = (i + 2 < len \<and> 128 \<le> unat (buffer ! (i + 1)) \<and> unat (buffer ! (i + 1)) \<le> 191
           \<and> 128 \<le> unat (buffer ! (i + 2)) \<and> unat (buffer ! (i + 2)) \<le> 191
           \<and> (v \<or> 2048 \<le> (?b mod 16) * 4096 + (unat (buffer ! (i + 1)) mod 64) * 64
                              + unat (buffer ! (i + 2)) mod 64)
           \<and> legal_loop buffer len v (i + 3))"
      by (auto simp add: cont_iff c800 c3_unat numeral_3_eq_3)
    finally show ?thesis using i three by (auto simp: Let_def)
  qed
qed

section \<open>Encoded buffers are legal\<close>

lemma two_lead:
  assumes "(n::nat) \<le> 2047" "x = 192 + n div 64"
  shows "192 \<le> x \<and> x < 224 \<and> x mod 32 = n div 64"
proof -
  have "n div 64 \<le> 2047 div 64" using assms(1) by (rule div_le_mono)
  then have q: "n div 64 \<le> 31" by simp
  have "x = n div 64 + 32 * 6" using assms(2) by simp
  then have "x mod 32 = n div 64 mod 32" by (simp only: mod_mult_self2)
  then show ?thesis using q assms(2) by simp
qed

lemma cont_low:
  assumes "(x::nat) = 128 + r" "r < 64"
  shows "128 \<le> x \<and> x \<le> 191 \<and> x mod 64 = r"
proof -
  have "x = r + 64 * 2" using assms by simp
  then have "x mod 64 = r mod 64" by (simp only: mod_mult_self2)
  then show ?thesis using assms by simp
qed

lemma three_lead:
  assumes "(n::nat) < 65536" "x = 224 + n div 4096"
  shows "224 \<le> x \<and> x < 240 \<and> x mod 16 = n div 4096"
proof -
  have "n div 4096 \<le> 65535 div 4096" using assms(1) by (intro div_le_mono) simp
  then have q: "n div 4096 \<le> 15" by simp
  have "x = n div 4096 + 16 * 14" using assms(2) by simp
  then have "x mod 16 = n div 4096 mod 16" by (simp only: mod_mult_self2)
  then show ?thesis using q assms(2) by simp
qed

lemma val2: "(n::nat) div 64 * 64 + n mod 64 = n"
  by simp

lemma val3: "(n::nat) div 4096 * 4096 + n div 64 mod 64 * 64 + n mod 64 = n"
proof -
  have "n div 64 div 64 * 64 + n div 64 mod 64 = n div 64" by simp
  moreover have "n div 64 div 64 = n div 4096" by (simp add: div_mult2_eq[symmetric])
  ultimately have "n div 4096 * 64 + n div 64 mod 64 = n div 64" by simp
  then have "(n div 4096 * 64 + n div 64 mod 64) * 64 + n mod 64 = n" by simp
  then show ?thesis by (simp add: add_mult_distrib)
qed


lemma utf8_bytes_cases [case_names one two three]:
  obtains
    (one) b where "utf8_bytes ch = [b]" "unat b = unat ch" "1 \<le> unat ch" "unat ch \<le> 127"
  | (two) b0 b1 where "utf8_bytes ch = [b0, b1]" "unat b0 = 192 + unat ch div 64"
      "unat b1 = 128 + unat ch mod 64" "unat ch = 0 \<or> 128 \<le> unat ch" "unat ch \<le> 2047"
  | (three) b0 b1 b2 where "utf8_bytes ch = [b0, b1, b2]" "unat b0 = 224 + unat ch div 4096"
      "unat b1 = 128 + unat ch div 64 mod 64" "unat b2 = 128 + unat ch mod 64" "2048 \<le> unat ch"
proof -
  let ?n = "unat ch"
  consider (a) "?n \<noteq> 0 \<and> ?n \<le> 127" | (b) "\<not> (?n \<noteq> 0 \<and> ?n \<le> 127)" "?n \<le> 2047"
    | (c) "\<not> ?n \<le> 2047" by linarith
  then show thesis
  proof cases
    case a
    then have "map unat (utf8_bytes ch) = [?n]" by (simp add: map_unat_utf8_bytes)
    then obtain b where "utf8_bytes ch = [b]" "unat b = ?n" by (auto simp: map_eq_Cons_conv)
    then show thesis using a one by simp
  next
    case b
    then have "map unat (utf8_bytes ch) = [192 + ?n div 64, 128 + ?n mod 64]"
      by (simp add: map_unat_utf8_bytes Let_def)
    then obtain b0 b1 where "utf8_bytes ch = [b0, b1]" "unat b0 = 192 + ?n div 64" "unat b1 = 128 + ?n mod 64"
      by (auto simp: map_eq_Cons_conv)
    moreover have "?n = 0 \<or> 128 \<le> ?n" using b by linarith
    ultimately show thesis using b two by simp
  next
    case c
    then have "map unat (utf8_bytes ch) = [224 + ?n div 4096, 128 + ?n div 64 mod 64, 128 + ?n mod 64]"
      by (simp add: map_unat_utf8_bytes Let_def)
    then obtain b0 b1 b2 where "utf8_bytes ch = [b0, b1, b2]" "unat b0 = 224 + ?n div 4096"
       "unat b1 = 128 + ?n div 64 mod 64" "unat b2 = 128 + ?n mod 64"
      by (auto simp: map_eq_Cons_conv)
    then show thesis using c three by simp
  qed
qed

lemma legal_loop_encoded:
  "buffer = pre @ utf8_encode units @ rest \<Longrightarrow> len = length pre + utf8_length units \<Longrightarrow>
   legal_loop buffer len v (length pre)"
proof (induction "length units" arbitrary: units pre rule: less_induct)
  case less
  let ?i = "length pre"
  have lb: "len \<le> length buffer" using less.prems by (simp add: length_utf8_encode)
  show ?case
  proof (cases units)
    case Nil
    then show ?thesis using less.prems by (subst legal_loop_unat[OF lb]) simp
  next
    case (Cons c cs)
    have n16: "unat c < 65536" by (rule unat16_less)
    show ?thesis
    proof (cases c rule: utf8_bytes_cases)
      case (one b)
      have buf: "buffer = (pre @ [b]) @ utf8_encode cs @ rest" using less.prems Cons one by simp
      have len: "len = length (pre @ [b]) + utf8_length cs"
        using less.prems Cons one length_utf8_bytes[of c] by simp
      have "legal_loop buffer len v (length (pre @ [b]))"
        using Cons by (intro less.hyps[OF _ buf len]) simp
      then have ih: "legal_loop buffer len v (?i + 1)" by (simp add: eval_nat_numeral)
      have il: "?i < len" using len by simp
      have "buffer ! ?i = b" using buf by simp
      then show ?thesis using ih one il by (subst legal_loop_unat[OF lb]) (auto simp: Let_def)
    next
      case (two b0 b1)
      have buf: "buffer = (pre @ [b0, b1]) @ utf8_encode cs @ rest" using less.prems Cons two by simp
      have len: "len = length (pre @ [b0, b1]) + utf8_length cs"
        using less.prems Cons two length_utf8_bytes[of c] by simp
      have "legal_loop buffer len v (length (pre @ [b0, b1]))"
        using Cons by (intro less.hyps[OF _ buf len]) simp
      then have ih: "legal_loop buffer len v (?i + 2)" by (simp add: eval_nat_numeral)
      have il: "?i + 1 < len" using len by simp
      have b: "buffer ! ?i = b0" "buffer ! (?i + 1) = b1" using buf by (simp_all add: nth_append)
      have r0: "192 \<le> unat b0" "unat b0 < 224" "unat b0 mod 32 = unat c div 64"
        using two_lead[OF two(5) two(2)] by simp_all
      have r1: "128 \<le> unat b1" "unat b1 \<le> 191" "unat b1 mod 64 = unat c mod 64"
        using cont_low[OF two(3)] by simp_all
      have val: "unat c div 64 * 64 + unat c mod 64 = unat c" by (rule val2)
      have ns: "\<not> supp_pattern buffer ?i" using b r0 by (simp add: supp_pattern_def)
      show ?thesis using ih two(4) il b r0 r1 ns val
        by (subst legal_loop_unat[OF lb]) (auto simp: Let_def)
    next
      case (three b0 b1 b2)
      have buf: "buffer = (pre @ [b0, b1, b2]) @ utf8_encode cs @ rest" using less.prems Cons three by simp
      have len: "len = length (pre @ [b0, b1, b2]) + utf8_length cs"
        using less.prems Cons three length_utf8_bytes[of c] by simp
      have "legal_loop buffer len v (length (pre @ [b0, b1, b2]))"
        using Cons by (intro less.hyps[OF _ buf len]) simp
      then have ih: "legal_loop buffer len v (?i + 3)" by (simp add: eval_nat_numeral)
      have il: "?i + 2 < len" using len by simp
      have b: "buffer ! ?i = b0" "buffer ! (?i + 1) = b1" "buffer ! (?i + 2) = b2"
        using buf by (simp_all add: nth_append)
      have r0: "224 \<le> unat b0" "unat b0 < 240" "unat b0 mod 16 = unat c div 4096"
        using three_lead[OF n16 three(2)] by simp_all
      have r1: "128 \<le> unat b1" "unat b1 \<le> 191" "unat b1 mod 64 = unat c div 64 mod 64"
        using cont_low[OF three(3)] by simp_all
      have r2: "128 \<le> unat b2" "unat b2 \<le> 191" "unat b2 mod 64 = unat c mod 64"
        using cont_low[OF three(4)] by simp_all
      have val: "unat c div 4096 * 4096 + unat c div 64 mod 64 * 64 + unat c mod 64 = unat c"
        by (rule val3)
      show ?thesis
      proof (cases "?i + 5 < len \<and> supp_pattern buffer ?i")
        case False
        then show ?thesis using ih three(5) il b r0 r1 r2 val
          by (subst legal_loop_unat[OF lb]) (auto simp: Let_def)
      next
        case True
        then have "0 < utf8_length cs" using len by simp
        then obtain d ds where cs: "cs = d # ds" by (cases cs) auto
        have b3: "buffer ! (?i + 3) = hd (utf8_bytes d)"
          using buf cs length_utf8_bytes[of d] by (cases "utf8_bytes d") (simp_all add: nth_append utf8_size_alt split: if_splits)
        have h: "unat (hd (utf8_bytes d)) = 237" using True b3 by (simp add: supp_pattern_def)
        obtain d0 d1 d2 where d: "utf8_bytes d = [d0, d1, d2]"
        proof (cases d rule: utf8_bytes_cases)
          case (one x) then show ?thesis using h by simp
        next
          case (two x y)
          have "unat x < 224" using two_lead[OF two(5) two(2)] by simp
          then show ?thesis using h two(1) by simp
        next
          case (three x y z) then show ?thesis using that by simp
        qed
        have buf': "buffer = (pre @ [b0, b1, b2, d0, d1, d2]) @ utf8_encode ds @ rest"
          using buf cs d by simp
        have len': "len = length (pre @ [b0, b1, b2, d0, d1, d2]) + utf8_length ds"
          using len cs d length_utf8_bytes[of d] by simp
        have "legal_loop buffer len v (length (pre @ [b0, b1, b2, d0, d1, d2]))"
          using Cons cs by (intro less.hyps[OF _ buf' len']) simp
        then have ih': "legal_loop buffer len v (?i + 6)" by (simp add: eval_nat_numeral)
        show ?thesis using ih' True b r0
          by (subst legal_loop_unat[OF lb]) (auto simp: Let_def)
      qed
    qed
  qed
qed

lemma is_legal_utf8_encoded:
  "is_legal_utf8 (utf8_encode units @ rest) (utf8_length units) v"
  using legal_loop_encoded[of "utf8_encode units @ rest" "[]" units rest "utf8_length units" v]
  by (simp add: is_legal_utf8_no_fast_path)

section \<open>The bounded writer\<close>

lemma utf8_length_fit: "0 < buflen \<Longrightarrow> utf8_length (as_utf8_fit buflen units) < buflen"
proof (induction units arbitrary: buflen)
  case Nil then show ?case by simp
next
  case (Cons c cs)
  show ?case
  proof (cases "utf8_size c \<ge> buflen")
    case True then show ?thesis using Cons.prems by simp
  next
    case False
    then have "utf8_length (as_utf8_fit (buflen - utf8_size c) cs) < buflen - utf8_size c"
      by (intro Cons.IH) simp
    then show ?thesis using False by simp
  qed
qed

lemma as_utf8_loop_eq:
  "p + buflen \<le> length mem \<Longrightarrow> 0 < buflen \<Longrightarrow>
   as_utf8_loop mem p buflen units
     = Some (take p mem @ utf8_encode (as_utf8_fit buflen units)
               @ drop (p + utf8_length (as_utf8_fit buflen units)) mem,
             p + utf8_length (as_utf8_fit buflen units))"
proof (induction units arbitrary: mem p buflen)
  case Nil
  then show ?case by simp
next
  case (Cons c cs)
  show ?case
  proof (cases "utf8_size c \<ge> buflen")
    case True
    then show ?thesis by simp
  next
    case False
    let ?sz = "utf8_size c"
    let ?m = "take p mem @ utf8_bytes c @ drop (p + ?sz) mem"
    let ?q = "p + ?sz"
    let ?fit = "as_utf8_fit (buflen - ?sz) cs"
    have fits: "p + ?sz \<le> length mem" using Cons.prems False by simp
    have w: "utf8_write mem p c = Some (?m, ?q)" using fits by (simp add: utf8_write_eq)
    have len: "length ?m = length mem" using fits by (simp add: length_utf8_bytes)
    have tk: "take ?q ?m = take p mem @ utf8_bytes c" using fits by (simp add: length_utf8_bytes)
    have dr: "drop (?q + utf8_length ?fit) ?m = drop (p + (?sz + utf8_length ?fit)) mem"
      using fits by (simp add: length_utf8_bytes ac_simps)
    have "as_utf8_loop ?m ?q (buflen - ?sz) cs
            = Some (take ?q ?m @ utf8_encode ?fit @ drop (?q + utf8_length ?fit) ?m, ?q + utf8_length ?fit)"
      using Cons.prems False len by (intro Cons.IH) simp_all
    then have ih: "as_utf8_loop ?m ?q (buflen - ?sz) cs
            = Some (take p mem @ utf8_bytes c @ utf8_encode ?fit @ drop (p + (?sz + utf8_length ?fit)) mem,
                    p + (?sz + utf8_length ?fit))"
      unfolding tk dr by (simp only: append_assoc add.assoc)
    have e1: "as_utf8_loop mem p buflen (c # cs) = as_utf8_loop ?m ?q (buflen - ?sz) cs"
      using False w by (simp add: Let_def)
    have e2: "as_utf8_fit buflen (c # cs) = c # ?fit" using False by simp
    show ?thesis unfolding e1 ih e2 by (simp add: add.assoc)
  qed
qed

lemma as_utf8_eq:
  assumes "0 < buflen" "buf + buflen \<le> length mem"
  shows "as_utf8 base mem buf buflen
     = Inr (take buf mem @ utf8_encode (as_utf8_fit buflen base)
              @ 0 # drop (buf + utf8_length (as_utf8_fit buflen base) + 1) mem)"
proof -
  let ?fit = "as_utf8_fit buflen base"
  let ?n = "buf + utf8_length ?fit"
  have lt: "utf8_length ?fit < buflen" using assms(1) by (rule utf8_length_fit)
  then have n: "?n < length mem" using assms(2) by simp
  have "length (take buf mem @ utf8_encode ?fit) = ?n" using n by (simp add: length_utf8_encode)
  moreover have "drop ?n mem = mem ! ?n # drop (?n + 1) mem"
    using n by (simp add: Cons_nth_drop_Suc)
  ultimately have "store (take buf mem @ utf8_encode ?fit @ drop ?n mem) ?n 0
       = Some (take buf mem @ utf8_encode ?fit @ 0 # drop (?n + 1) mem)"
    using store_append[of "take buf mem @ utf8_encode ?fit" "mem ! ?n" "drop (?n + 1) mem" 0] by simp
  then show ?thesis using assms by (simp add: as_utf8_def as_utf8_loop_eq)
qed

lemma as_utf8_fit_take:
  "\<exists>k\<le>length units. as_utf8_fit buflen units = take k units
      \<and> (\<forall>j<k. utf8_size (units ! j) < buflen - utf8_length (take j units))
      \<and> (k < length units \<longrightarrow> \<not> utf8_size (units ! k) < buflen - utf8_length (take k units))"
proof (induction units arbitrary: buflen)
  case Nil
  then show ?case by simp
next
  case (Cons c cs)
  show ?case
  proof (cases "utf8_size c \<ge> buflen")
    case True
    then show ?thesis by (intro exI[of _ 0]) simp
  next
    case False
    obtain k where k: "k \<le> length cs" "as_utf8_fit (buflen - utf8_size c) cs = take k cs"
      "\<forall>j<k. utf8_size (cs ! j) < buflen - utf8_size c - utf8_length (take j cs)"
      "k < length cs \<longrightarrow> \<not> utf8_size (cs ! k) < buflen - utf8_size c - utf8_length (take k cs)"
      using Cons.IH[of "buflen - utf8_size c"] by blast
    have "\<forall>j<Suc k. utf8_size ((c # cs) ! j) < buflen - utf8_length (take j (c # cs))"
    proof (intro allI impI)
      fix j assume "j < Suc k"
      then show "utf8_size ((c # cs) ! j) < buflen - utf8_length (take j (c # cs))"
        using False k(3) by (cases j) auto
    qed
    then show ?thesis using False k by (intro exI[of _ "Suc k"]) auto
  qed
qed

lemma as_utf8_fit_all: "utf8_length units < buflen \<Longrightarrow> as_utf8_fit buflen units = units"
  by (induction units arbitrary: buflen) auto

lemma utf8_bytes_nonzero: "0 \<notin> set (utf8_bytes ch)"
proof (cases ch rule: utf8_bytes_cases)
  case (one b) then show ?thesis by (auto simp: byte_eq_0)
next
  case (two b0 b1) then show ?thesis by (auto simp: byte_eq_0)
next
  case (three b0 b1 b2) then show ?thesis by (auto simp: byte_eq_0)
qed

lemma utf8_encode_nonzero: "0 \<notin> set (utf8_encode units)"
  using utf8_bytes_nonzero by (auto simp: utf8_encode_def)

lemma strlen_terminated: "0 \<notin> set pre \<Longrightarrow> strlen (pre @ 0 # rest) 0 = Some (length pre)"
proof -
  assume "0 \<notin> set pre"
  then have "takeWhile (\<lambda>b. b \<noteq> 0) (pre @ 0 # rest) = pre"
    by (induction pre) auto
  then show ?thesis by (simp add: strlen_def)
qed

lemma as_utf8_alloc_eq:
  "as_utf8_alloc base junk = Inr (utf8_encode base @ [0], utf8_length base)"
proof -
  let ?L = "utf8_length base"
  let ?buf = "map junk [0..<?L + 1]"
  have "as_utf8 base ?buf 0 (?L + 1)
          = Inr (take 0 ?buf @ utf8_encode (as_utf8_fit (?L + 1) base)
                  @ 0 # drop (0 + utf8_length (as_utf8_fit (?L + 1) base) + 1) ?buf)"
    by (rule as_utf8_eq) simp_all
  then have r: "as_utf8 base ?buf 0 (?L + 1) = Inr (utf8_encode base @ [0])"
    by (simp add: as_utf8_fit_all)
  have "strlen (utf8_encode base @ [0]) 0 = Some (length (utf8_encode base))"
    using utf8_encode_nonzero by (rule strlen_terminated)
  then show ?thesis using r by (simp add: as_utf8_alloc_def length_utf8_encode Let_def)
qed

lemma as_utf8_jchar_bounded:
  assumes "0 < buflen" and "buf + buflen \<le> length mem"
  shows "(\<exists>k n. k \<le> length base \<and> n = utf8_length (take k base) \<and> n < buflen
            \<and> (\<forall>j<k. utf8_size (base ! j) < buflen - utf8_length (take j base))
            \<and> (k < length base \<longrightarrow> \<not> utf8_size (base ! k) < buflen - n)
            \<and> as_utf8 base mem buf buflen
                 = Inr (take buf mem @ utf8_encode (take k base) @ 0 # drop (buf + n + 1) mem))
         \<and> as_utf8_alloc base junk = Inr (utf8_encode base @ [0], utf8_length base)
         \<and> strlen (utf8_encode base @ [0]) 0 = Some (utf8_length base)"
proof -
  obtain k where k: "k \<le> length base" "as_utf8_fit buflen base = take k base"
      "\<forall>j<k. utf8_size (base ! j) < buflen - utf8_length (take j base)"
      "k < length base \<longrightarrow> \<not> utf8_size (base ! k) < buflen - utf8_length (take k base)"
    using as_utf8_fit_take[of base buflen] by blast
  have n: "utf8_length (take k base) < buflen" using utf8_length_fit[OF assms(1), of base] k(2) by simp
  have r: "as_utf8 base mem buf buflen
       = Inr (take buf mem @ utf8_encode (take k base) @ 0 # drop (buf + utf8_length (take k base) + 1) mem)"
    using as_utf8_eq[OF assms, of base] k(2) by simp
  have s: "strlen (utf8_encode base @ [0]) 0 = Some (utf8_length base)"
    using strlen_terminated[OF utf8_encode_nonzero, of base "[]"] by (simp add: length_utf8_encode)
  show ?thesis using k n r s as_utf8_alloc_eq by blast
qed

text \<open>
  Claim C2. For every sequence of 16-bit code units (0, lone surrogates and surrogate
  pairs included), the buffer that the bulk encoder produces (\<^verbatim>\<open>UNICODE::convert_to_utf8\<close>,
  and \<^verbatim>\<open>UNICODE::as_utf8\<close> with a capacity above \<^verbatim>\<open>utf8_length\<close>) is accepted by
  \<^verbatim>\<open>UTF8::is_legal_utf8\<close> over its counted length, with \<open>version_leq_47\<close> true and with
  \<open>version_leq_47\<close> false.
\<close>

theorem C2_encoder_output_is_legal:
  assumes "utf8_length units < buflen" and "buflen \<le> length mem"
  shows "(\<exists>mem'. convert_to_utf8 units mem 0 = Some mem'
             \<and> is_legal_utf8 mem' (utf8_length units) True
             \<and> is_legal_utf8 mem' (utf8_length units) False)
       \<and> (\<exists>mem'. as_utf8 units mem 0 buflen = Inr mem'
             \<and> is_legal_utf8 mem' (utf8_length units) True
             \<and> is_legal_utf8 mem' (utf8_length units) False)"
proof -
  let ?out = "utf8_encode units @ 0 # drop (utf8_length units + 1) mem"
  have "convert_to_utf8 units mem 0 = Some ?out"
    using convert_to_utf8_eq[of 0 units mem] assms by simp
  moreover have "as_utf8 units mem 0 buflen = Inr ?out"
    using as_utf8_eq[of buflen 0 mem units] assms by (simp add: as_utf8_fit_all)
  moreover have "is_legal_utf8 ?out (utf8_length units) True" "is_legal_utf8 ?out (utf8_length units) False"
    by (rule is_legal_utf8_encoded)+
  ultimately show ?thesis by simp
qed

theorem C2_encoder_output_is_legal_witness:
  "(\<exists>mem'. convert_to_utf8 [0x20AC, 0, 0xD83D, 0xDE00, 0x41] (replicate 16 7) 0 = Some mem'
             \<and> is_legal_utf8 mem' (utf8_length [0x20AC, 0, 0xD83D, 0xDE00, 0x41]) True
             \<and> is_legal_utf8 mem' (utf8_length [0x20AC, 0, 0xD83D, 0xDE00, 0x41]) False)
       \<and> (\<exists>mem'. as_utf8 [0x20AC, 0, 0xD83D, 0xDE00, 0x41] (replicate 16 7) 0 13 = Inr mem'
             \<and> is_legal_utf8 mem' (utf8_length [0x20AC, 0, 0xD83D, 0xDE00, 0x41]) True
             \<and> is_legal_utf8 mem' (utf8_length [0x20AC, 0, 0xD83D, 0xDE00, 0x41]) False)"
  by (rule C2_encoder_output_is_legal[of "[0x20AC, 0, 0xD83D, 0xDE00, 0x41]" 13 "replicate 16 7"])
     (simp_all add: utf8_size_def)

section \<open>Counting the characters of an encoded buffer\<close>

lemma byte_gt_C3: "((b::u_char) > 0xC3) \<longleftrightarrow> 195 < unat b"
  by (simp add: word_less_nat_alt)

lemma unit_le_FF: "((u::jchar) \<le> 0xFF) \<longleftrightarrow> unat u \<le> 255"
  by (simp add: word_le_nat_alt)

lemma ul_step:
  assumes "i < len" "i < length str"
  shows "unicode_length_loop str len i (num, l, m, prev) =
     (if 128 \<le> unat (str ! i) \<and> unat (str ! i) \<le> 191
      then unicode_length_loop str len (i + 1) (num - 1, l \<and> \<not> 195 < unat prev, True, str ! i)
      else unicode_length_loop str len (i + 1) (num, l, m, str ! i))"
  using assms by (subst unicode_length_loop.simps) (auto simp: load_def cont_iff byte_gt_C3)

lemma ul_done: "\<not> i < len \<Longrightarrow> unicode_length_loop str len i s = Some s"
  by (cases s) (simp add: unicode_length_loop.simps)

lemma utf8_size_le: "1 \<le> utf8_size c" "utf8_size c \<le> 3"
  by (simp_all add: utf8_size_def)

lemma length_le_utf8_length: "length units \<le> utf8_length units"
proof (induction units)
  case Nil show ?case by simp
next
  case (Cons c cs) then show ?case using utf8_size_le(1)[of c] by simp
qed

lemma lead_gt_C3:
  assumes "(n::nat) \<le> 2047"
  shows "195 < 192 + n div 64 \<longleftrightarrow> 255 < n"
proof
  assume "195 < 192 + n div 64"
  then have "4 \<le> n div 64" by simp
  then have "4 * 64 \<le> n" by (simp add: less_eq_div_iff_mult_less_eq)
  then show "255 < n" by simp
next
  assume "255 < n"
  then have "256 div 64 \<le> n div 64" by (intro div_le_mono) simp
  then show "195 < 192 + n div 64" by simp
qed

lemma ul_encoded:
  "buffer = pre @ utf8_encode units @ rest \<Longrightarrow> len = length pre + utf8_length units \<Longrightarrow>
   utf8_length units \<le> num + length units \<Longrightarrow>
   \<exists>num' prev'. unicode_length_loop buffer len (length pre) (num, l, m, prev)
        = Some (num', l \<and> list_all (\<lambda>u. u \<le> 0xFF) units, m \<or> length units < utf8_length units, prev')
      \<and> num' + utf8_length units = num + length units"
proof (induction units arbitrary: pre num l m prev)
  case Nil
  then show ?case by (simp add: ul_done)
next
  case (Cons c cs)
  let ?i = "length pre"
  have le: "length cs \<le> utf8_length cs" by (rule length_le_utf8_length)
  show ?case
  proof (cases c rule: utf8_bytes_cases)
    case (one b)
    have sz: "utf8_size c = 1" using length_utf8_bytes[of c] one by simp
    have buf: "buffer = (pre @ [b]) @ utf8_encode cs @ rest" using Cons.prems one by simp
    have len: "len = length (pre @ [b]) + utf8_length cs" using Cons.prems sz by simp
    have num: "utf8_length cs \<le> num + length cs" using Cons.prems sz by simp
    have bi: "buffer ! ?i = b" "?i < len" "?i < length buffer" using buf len by simp_all
    have nc: "\<not> (128 \<le> unat b \<and> unat b \<le> 191)" using one by simp
    obtain num' prev' where ih:
      "unicode_length_loop buffer len (length (pre @ [b])) (num, l, m, b)
         = Some (num', l \<and> list_all (\<lambda>u. u \<le> 0xFF) cs, m \<or> length cs < utf8_length cs, prev')"
      "num' + utf8_length cs = num + length cs"
      using Cons.IH[OF buf len num, of l m b] by blast
    have "unicode_length_loop buffer len ?i (num, l, m, prev)
            = unicode_length_loop buffer len (length (pre @ [b])) (num, l, m, b)"
      using bi nc by (subst ul_step) auto
    moreover have "c \<le> 0xFF" using one by (simp add: unit_le_FF)
    ultimately show ?thesis using ih sz by simp
  next
    case (two b0 b1)
    have sz: "utf8_size c = 2" using length_utf8_bytes[of c] two by simp
    have buf: "buffer = (pre @ [b0, b1]) @ utf8_encode cs @ rest" using Cons.prems two by simp
    have len: "len = length (pre @ [b0, b1]) + utf8_length cs" using Cons.prems sz by simp
    have num: "utf8_length cs \<le> (num - 1) + length cs" using Cons.prems sz by simp
    have num1: "1 \<le> num" using Cons.prems sz le by simp
    have bi: "buffer ! ?i = b0" "buffer ! (?i + 1) = b1" "?i + 1 < len" "?i + 1 < length buffer"
      using buf len by (simp_all add: nth_append)
    have r0: "192 \<le> unat b0" "unat b0 < 224" using two_lead[OF two(5) two(2)] by simp_all
    have r1: "128 \<le> unat b1" "unat b1 \<le> 191" using cont_low[OF two(3)] by simp_all
    have lat: "195 < unat b0 \<longleftrightarrow> \<not> c \<le> 0xFF"
      using lead_gt_C3[OF two(5)] two(2) by (simp add: unit_le_FF not_le)
    obtain num' prev' where ih:
      "unicode_length_loop buffer len (length (pre @ [b0, b1])) (num - 1, l \<and> \<not> 195 < unat b0, True, b1)
         = Some (num', (l \<and> \<not> 195 < unat b0) \<and> list_all (\<lambda>u. u \<le> 0xFF) cs,
                 True \<or> length cs < utf8_length cs, prev')"
      "num' + utf8_length cs = (num - 1) + length cs"
      using Cons.IH[OF buf len num, of "l \<and> \<not> 195 < unat b0" True b1] by blast
    have "unicode_length_loop buffer len ?i (num, l, m, prev)
            = unicode_length_loop buffer len (?i + 1) (num, l, m, b0)"
      using bi r0 by (subst ul_step) auto
    also have "\<dots> = unicode_length_loop buffer len (?i + 1 + 1) (num - 1, l \<and> \<not> 195 < unat b0, True, b1)"
      using bi r1 by (subst ul_step) auto
    finally have "unicode_length_loop buffer len ?i (num, l, m, prev)
            = unicode_length_loop buffer len (length (pre @ [b0, b1])) (num - 1, l \<and> \<not> 195 < unat b0, True, b1)"
      by simp
    then show ?thesis using ih sz lat num1 le by auto
  next
    case (three b0 b1 b2)
    have sz: "utf8_size c = 3" using length_utf8_bytes[of c] three by simp
    have buf: "buffer = (pre @ [b0, b1, b2]) @ utf8_encode cs @ rest" using Cons.prems three by simp
    have len: "len = length (pre @ [b0, b1, b2]) + utf8_length cs" using Cons.prems sz by simp
    have num: "utf8_length cs \<le> (num - 1 - 1) + length cs" using Cons.prems sz by simp
    have num1: "2 \<le> num" using Cons.prems sz le by simp
    have bi: "buffer ! ?i = b0" "buffer ! (?i + 1) = b1" "buffer ! (?i + 2) = b2"
       "?i + 2 < len" "?i + 2 < length buffer"
      using buf len by (simp_all add: nth_append)
    have r0: "224 \<le> unat b0" "unat b0 < 240" using three_lead[OF unat16_less three(2)] by simp_all
    have r1: "128 \<le> unat b1" "unat b1 \<le> 191" using cont_low[OF three(3)] by simp_all
    have r2: "128 \<le> unat b2" "unat b2 \<le> 191" using cont_low[OF three(4)] by simp_all
    have lat: "\<not> c \<le> 0xFF" using three(5) by (simp add: unit_le_FF)
    obtain num' prev' where ih:
      "unicode_length_loop buffer len (length (pre @ [b0, b1, b2])) (num - 1 - 1, False, True, b2)
         = Some (num', False \<and> list_all (\<lambda>u. u \<le> 0xFF) cs,
                 True \<or> length cs < utf8_length cs, prev')"
      "num' + utf8_length cs = (num - 1 - 1) + length cs"
      using Cons.IH[OF buf len num, of False True b2] by blast
    have "unicode_length_loop buffer len ?i (num, l, m, prev)
            = unicode_length_loop buffer len (?i + 1) (num, l, m, b0)"
      using bi r0 by (subst ul_step) auto
    also have "\<dots> = unicode_length_loop buffer len (?i + 1 + 1) (num - 1, False, True, b1)"
      using bi r0 r1 by (subst ul_step) auto
    also have "\<dots> = unicode_length_loop buffer len (?i + 1 + 1 + 1) (num - 1 - 1, False, True, b2)"
      using bi r1 r2 by (subst ul_step) auto
    finally have "unicode_length_loop buffer len ?i (num, l, m, prev)
            = unicode_length_loop buffer len (length (pre @ [b0, b1, b2])) (num - 1 - 1, False, True, b2)"
      by simp
    then show ?thesis using ih sz lat num1 le by auto
  qed
qed

lemma unicode_length_encoded:
  assumes "length units \<le> 2147483647"
  shows "unicode_length (utf8_encode units @ rest) (utf8_length units)
     = Inr (int (length units), list_all (\<lambda>u. u \<le> 0xFF) units, length units < utf8_length units)"
proof -
  obtain num' prev' where r:
    "unicode_length_loop (utf8_encode units @ rest) (utf8_length units) (length ([]::u_char list))
        (utf8_length units, True, False, 0)
      = Some (num', True \<and> list_all (\<lambda>u. u \<le> 0xFF) units, False \<or> length units < utf8_length units, prev')"
    "num' + utf8_length units = utf8_length units + length units"
    using ul_encoded[of "utf8_encode units @ rest" "[]" units rest "utf8_length units" "utf8_length units" True False 0]
    by auto
  then have "num' = length units" by simp
  then show ?thesis using r(1) assms by (simp add: unicode_length_def checked_cast_int_def)
qed

text \<open>
  Claim C4. For every sequence of code units, \<^verbatim>\<open>UTF8::unicode_length\<close> (the variant with a
  known length) applied to the buffer that the bulk encoder produced returns the
  number of code units that were encoded, and sets \<^verbatim>\<open>is_latin1\<close> to true if and only if
  every one of them is at most \<open>0xFF\<close>. (It also sets \<^verbatim>\<open>has_multibyte\<close> exactly when some
  unit took more than one byte.) The encoder's \<^verbatim>\<open>length\<close> parameter is an \<^verbatim>\<open>int\<close>, so the
  number of units is at most \<open>2147483647\<close>.
\<close>

theorem C4_unicode_length_of_encoded:
  assumes "utf8_length units < length mem" and "length units \<le> 2147483647"
  shows "\<exists>mem'. convert_to_utf8 units mem 0 = Some mem'
           \<and> unicode_length mem' (utf8_length units)
               = Inr (int (length units), list_all (\<lambda>u. u \<le> 0xFF) units, length units < utf8_length units)"
proof -
  let ?out = "utf8_encode units @ 0 # drop (utf8_length units + 1) mem"
  have "convert_to_utf8 units mem 0 = Some ?out"
    using convert_to_utf8_eq[of 0 units mem] assms(1) by simp
  then show ?thesis using unicode_length_encoded[OF assms(2)] by simp
qed

theorem C4_unicode_length_of_encoded_witness:
  "\<exists>mem'. convert_to_utf8 [0x41, 0xFF, 0] (replicate 8 7) 0 = Some mem'
           \<and> unicode_length mem' (utf8_length [0x41, 0xFF, 0])
               = Inr (int (length [0x41, 0xFF, 0 :: jchar]), list_all (\<lambda>u. u \<le> 0xFF) [0x41, 0xFF, 0 :: jchar],
                      length [0x41, 0xFF, 0 :: jchar] < utf8_length [0x41, 0xFF, 0])"
  by (rule C4_unicode_length_of_encoded[of "[0x41, 0xFF, 0]" "replicate 8 7"])
     (simp_all add: utf8_size_def)

section \<open>What the validator accepts\<close>

text \<open>Every byte of an accepted buffer is either consumed as the first byte of a
  character or as a continuation byte of the character before it; the lemma records
  what that means for the byte at index \<open>j\<close> when the loop is started at \<open>i\<close>.\<close>

lemma strict_two:
  assumes "192 \<le> (b::nat)" "b \<le> 193" "128 \<le> (b1::nat)" "b1 \<le> 191"
    and "(b mod 32) * 64 + b1 mod 64 = 0 \<or> 128 \<le> (b mod 32) * 64 + b1 mod 64"
  shows "b = 192 \<and> b1 = 128"
proof -
  have r: "b1 mod 64 < 64" by simp
  have "b = 192 \<or> b = 193" using assms(1,2) by linarith
  then show ?thesis
  proof
    assume b: "b = 193"
    then have "b mod 32 = 1" by simp
    then show ?thesis using assms(5) r by simp
  next
    assume b: "b = 192"
    then have "b mod 32 = 0" by simp
    then have z: "b1 mod 64 = 0" using assms(5) r by simp
    have "b1 = 64 * (b1 div 64) + b1 mod 64" by simp
    then have e: "b1 = 64 * (b1 div 64)" using z by simp
    then have "2 \<le> b1 div 64" "b1 div 64 \<le> 2" using assms(3,4) by linarith+
    then have "b1 div 64 = 2" by simp
    then show ?thesis using e b by simp
  qed
qed

lemma legal_loop_inv:
  assumes "len \<le> length buffer"
  shows "legal_loop buffer len v i \<Longrightarrow> i \<le> j \<Longrightarrow> j < len \<Longrightarrow>
     unat (buffer ! j) \<noteq> 0
     \<and> (224 \<le> unat (buffer ! j) \<and> unat (buffer ! j) \<le> 239 \<longrightarrow>
          j + 1 < len \<and> 128 \<le> unat (buffer ! (j + 1)) \<and> unat (buffer ! (j + 1)) \<le> 191)
     \<and> (128 \<le> unat (buffer ! j) \<and> unat (buffer ! j) \<le> 191 \<longrightarrow>
          (i < j \<and> 192 \<le> unat (buffer ! (j - 1)) \<and> unat (buffer ! (j - 1)) \<le> 239)
          \<or> (i + 1 < j \<and> 128 \<le> unat (buffer ! (j - 1)) \<and> unat (buffer ! (j - 1)) \<le> 191
               \<and> 224 \<le> unat (buffer ! (j - 2)) \<and> unat (buffer ! (j - 2)) \<le> 239))
     \<and> (\<not> v \<and> 192 \<le> unat (buffer ! j) \<and> unat (buffer ! j) \<le> 193 \<longrightarrow>
          unat (buffer ! j) = 192 \<and> j + 1 < len \<and> unat (buffer ! (j + 1)) = 128)"
  (is "_ \<Longrightarrow> _ \<Longrightarrow> _ \<Longrightarrow> ?P i")
proof (induction "len - i" arbitrary: i rule: less_induct)
  case less
  have il: "i < len" using less.prems by simp
  let ?b = "unat (buffer ! i)"
  let ?b1 = "unat (buffer ! (i + 1))"
  let ?b2 = "unat (buffer ! (i + 2))"
  have later: "?P i" if "legal_loop buffer len v i'" "i < i'" "i' \<le> j" for i'
  proof -
    have "?P i'" using that less.prems(3) il by (intro less.hyps) simp_all
    then show ?thesis using that(2) by auto
  qed
  have step: "legal_loop buffer len v i =
        (if ?b = 0 then False
         else if ?b < 128 then legal_loop buffer len v (i + 1)
         else if i + 5 < len \<and> supp_pattern buffer i then legal_loop buffer len v (i + 6)
         else if ?b < 192 \<or> 240 \<le> ?b then False
         else if ?b < 224 then
           i + 1 < len \<and> 128 \<le> ?b1 \<and> ?b1 \<le> 191
           \<and> (v \<or> (?b mod 32) * 64 + ?b1 mod 64 = 0 \<or> 128 \<le> (?b mod 32) * 64 + ?b1 mod 64)
           \<and> legal_loop buffer len v (i + 2)
         else
           i + 2 < len \<and> 128 \<le> ?b1 \<and> ?b1 \<le> 191 \<and> 128 \<le> ?b2 \<and> ?b2 \<le> 191
           \<and> (v \<or> 2048 \<le> (?b mod 16) * 4096 + (?b1 mod 64) * 64 + ?b2 mod 64)
           \<and> legal_loop buffer len v (i + 3))"
    using il by (subst legal_loop_unat[OF assms]) (simp add: Let_def)
  consider
      (ascii) "0 < ?b" "?b < 128" "legal_loop buffer len v (i + 1)"
    | (supp) "i + 5 < len" "supp_pattern buffer i" "legal_loop buffer len v (i + 6)"
    | (two) "192 \<le> ?b" "?b < 224" "i + 1 < len" "128 \<le> ?b1" "?b1 \<le> 191"
        "v \<or> (?b mod 32) * 64 + ?b1 mod 64 = 0 \<or> 128 \<le> (?b mod 32) * 64 + ?b1 mod 64"
        "legal_loop buffer len v (i + 2)"
    | (three) "224 \<le> ?b" "?b < 240" "i + 2 < len" "128 \<le> ?b1" "?b1 \<le> 191" "128 \<le> ?b2" "?b2 \<le> 191"
        "legal_loop buffer len v (i + 3)"
    using less.prems(1) unfolding step by (auto split: if_splits)
  then show ?case
  proof cases
    case ascii
    show ?thesis
    proof (cases "j = i")
      case True then show ?thesis using ascii by simp
    next
      case False then show ?thesis using later[OF ascii(3)] less.prems(2) by simp
    qed
  next
    case two
    consider "j = i" | "j = i + 1" | "i + 2 \<le> j" using less.prems(2) by linarith
    then show ?thesis
    proof cases
      case 1
      have "\<not> v \<Longrightarrow> ?b \<le> 193 \<Longrightarrow> ?b = 192 \<and> ?b1 = 128"
        using strict_two[OF two(1) _ two(4,5)] two(6) by simp
      then show ?thesis using 1 two by auto
    next
      case 2 then show ?thesis using two by simp
    next
      case 3 then show ?thesis using later[OF two(7)] by simp
    qed
  next
    case three
    consider "j = i" | "j = i + 1" | "j = i + 2" | "i + 3 \<le> j" using less.prems(2) by linarith
    then show ?thesis
    proof cases
      case 1 then show ?thesis using three by simp
    next
      case 2 then show ?thesis using three by simp
    next
      case 3 then show ?thesis using three by (simp add: numeral_2_eq_2)
    next
      case 4 then show ?thesis using later[OF three(8)] by simp
    qed
  next
    case supp
    note p = supp(2)[unfolded supp_pattern_def]
    consider "j = i" | "j = i + 1" | "j = i + 2" | "j = i + 3" | "j = i + 4" | "j = i + 5" | "i + 6 \<le> j"
      using less.prems(2) by linarith
    then show ?thesis
    proof cases
      case 1 then show ?thesis using p supp(1) by simp
    next
      case 2 then show ?thesis using p supp(1) by simp
    next
      case 3 then show ?thesis using p supp(1) by (simp add: numeral_2_eq_2)
    next
      case 4
      have "j - 1 = i + 2" "j - 2 = i + 1" "j + 1 = i + 4" using 4 by simp_all
      then show ?thesis using 4 p supp(1) by (simp add: add.commute)
    next
      case 5
      have "j - 1 = i + 3" "j - 2 = i + 2" "j + 1 = i + 5" using 5 by simp_all
      then show ?thesis using 5 p supp(1) by (simp add: add.commute)
    next
      case 6
      have "j - 1 = i + 4" "j - 2 = i + 3" using 6 by simp_all
      then show ?thesis using 6 p supp(1) by (simp add: add.commute)
    next
      case 7 then show ?thesis using later[OF supp(3)] by simp
    qed
  qed
qed


lemma nibble_CDE:
  "(drop_bit 4 (b::u_char) = 0xC \<or> drop_bit 4 b = 0xD \<or> drop_bit 4 b = 0xE) \<longleftrightarrow> (192 \<le> unat b \<and> unat b \<le> 239)"
  by (rule byte_exhaust[of _ b]) code_simp

lemma overlong_two_bytes:
  assumes "unat (a::jchar) \<le> 2047"
  shows "unat (ucast (drop_bit 6 a) OR 0xC0 :: u_char) = 192 + unat a div 64"
    and "unat (ucast (a AND 0x3F) OR 0x80 :: u_char) = 128 + unat a mod 64"
proof -
  have "unat a div 64 \<le> 2047 div 64" using assms by (rule div_le_mono)
  then have q: "unat a div 64 \<le> 31" by simp
  have h: "unat (ucast (drop_bit 6 a) :: u_char) = unat a div 64"
    using q by (simp only: unat_ucast_16_8 unat_drop) simp
  have l: "unat (ucast (a AND 0x3F) :: u_char) = unat a mod 64"
    by (simp only: unat_ucast_16_8 unat_and_3F) simp
  show "unat (ucast (drop_bit 6 a) OR 0xC0 :: u_char) = 192 + unat a div 64"
    using q h by (subst unat_or_C0) auto
  show "unat (ucast (a AND 0x3F) OR 0x80 :: u_char) = 128 + unat a mod 64"
    using l by (subst unat_or_80) auto
qed

lemma legal_C0_80: "is_legal_utf8 [0xC0, 0x80] 2 False"
  by code_simp

text \<open>
  Claim C3. \<^verbatim>\<open>UTF8::is_legal_utf8\<close> returns false for a buffer that has, at some index \<open>j\<close>
  inside its counted length,
  \<^item> the lead byte of a 3-byte sequence (high nibble \<open>0xE\<close>) whose second byte does not have
    the top two bits \<open>10\<close> (or is no longer inside the counted length);
  \<^item> a continuation byte (\<open>10xxxxxx\<close>) that no lead byte matches: the byte before it is not
    the lead byte of a 2- or 3-byte sequence (high nibble \<open>0xC\<close>, \<open>0xD\<close>, \<open>0xE\<close>), and it is
    not the second continuation byte after the lead byte of a 3-byte sequence;
  \<^item> a literal \<open>0x00\<close> byte;
  \<^item> with \<open>version_leq_47\<close> false, the 2-byte encoding \<open>110xxxxx 10xxxxxx\<close> of an ASCII
    value \<open>a\<close> in \<open>0x01..0x7F\<close>;
  while \<open>C0 80\<close>, the 2-byte encoding of 0, is legal with \<open>version_leq_47\<close> false.
\<close>

theorem C3_validator_rejects:
  assumes "len \<le> length buffer" and "j < len"
  shows "(drop_bit 4 (buffer ! j) = 0xE \<and> (j + 1 < len \<longrightarrow> buffer ! (j + 1) AND 0xC0 \<noteq> 0x80)
            \<longrightarrow> \<not> is_legal_utf8 buffer len v)
       \<and> (buffer ! j AND 0xC0 = 0x80
            \<and> \<not> (0 < j \<and> (drop_bit 4 (buffer ! (j - 1)) = 0xC \<or> drop_bit 4 (buffer ! (j - 1)) = 0xD
                            \<or> drop_bit 4 (buffer ! (j - 1)) = 0xE))
            \<and> \<not> (1 < j \<and> buffer ! (j - 1) AND 0xC0 = 0x80 \<and> drop_bit 4 (buffer ! (j - 2)) = 0xE)
            \<longrightarrow> \<not> is_legal_utf8 buffer len v)
       \<and> (buffer ! j = 0 \<longrightarrow> \<not> is_legal_utf8 buffer len v)
       \<and> (1 \<le> (a::jchar) \<and> a \<le> 0x7F \<and> j + 1 < len
            \<and> buffer ! j = ucast (drop_bit 6 a) OR 0xC0 \<and> buffer ! (j + 1) = ucast (a AND 0x3F) OR 0x80
            \<longrightarrow> \<not> is_legal_utf8 buffer len False)
       \<and> is_legal_utf8 [0xC0, 0x80] 2 False"
proof -
  note inv = legal_loop_inv[OF assms(1) _ _ assms(2), of _ 0, simplified]
  have three: "\<not> is_legal_utf8 buffer len v"
    if "drop_bit 4 (buffer ! j) = 0xE" "j + 1 < len \<longrightarrow> buffer ! (j + 1) AND 0xC0 \<noteq> 0x80"
  proof
    assume "is_legal_utf8 buffer len v"
    then have "legal_loop buffer len v 0" by (simp add: is_legal_utf8_no_fast_path)
    from inv[OF this] that show False by (auto simp: nibble_E cont_iff)
  qed
  have cont: "\<not> is_legal_utf8 buffer len v"
    if "buffer ! j AND 0xC0 = 0x80"
      "\<not> (0 < j \<and> (drop_bit 4 (buffer ! (j - 1)) = 0xC \<or> drop_bit 4 (buffer ! (j - 1)) = 0xD
                            \<or> drop_bit 4 (buffer ! (j - 1)) = 0xE))"
      "\<not> (1 < j \<and> buffer ! (j - 1) AND 0xC0 = 0x80 \<and> drop_bit 4 (buffer ! (j - 2)) = 0xE)"
  proof
    assume "is_legal_utf8 buffer len v"
    then have l: "legal_loop buffer len v 0" by (simp add: is_legal_utf8_no_fast_path)
    have c: "128 \<le> unat (buffer ! j) \<and> unat (buffer ! j) \<le> 191"
      using that(1) by (simp only: cont_iff simp_thms)
    have m1: "\<not> (0 < j \<and> 192 \<le> unat (buffer ! (j - 1)) \<and> unat (buffer ! (j - 1)) \<le> 239)"
      using that(2) by (simp only: nibble_CDE simp_thms)
    have m2: "\<not> (1 < j \<and> (128 \<le> unat (buffer ! (j - 1)) \<and> unat (buffer ! (j - 1)) \<le> 191)
                \<and> 224 \<le> unat (buffer ! (j - 2)) \<and> unat (buffer ! (j - 2)) \<le> 239)"
      using that(3) by (simp only: cont_iff nibble_E simp_thms)
    from inv[OF l] c m1 m2 show False by auto
  qed
  have nul: "\<not> is_legal_utf8 buffer len v" if "buffer ! j = 0"
  proof
    assume "is_legal_utf8 buffer len v"
    then have "legal_loop buffer len v 0" by (simp add: is_legal_utf8_no_fast_path)
    from inv[OF this] that show False by simp
  qed
  have overlong: "\<not> is_legal_utf8 buffer len False"
    if "1 \<le> (a::jchar)" "a \<le> 0x7F" "j + 1 < len" "buffer ! j = ucast (drop_bit 6 a) OR 0xC0"
       "buffer ! (j + 1) = ucast (a AND 0x3F) OR 0x80"
  proof
    assume "is_legal_utf8 buffer len False"
    then have l: "legal_loop buffer len False 0" by (simp add: is_legal_utf8_no_fast_path)
    have a: "1 \<le> unat a" "unat a \<le> 127" using that(1,2) by (simp_all add: word_le_nat_alt)
    then have a2: "unat a \<le> 2047" by simp
    have "unat a div 64 \<le> 127 div 64" using a(2) by (rule div_le_mono)
    then have q: "unat a div 64 \<le> 1" by simp
    have b0: "unat (buffer ! j) = 192 + unat a div 64" using that(4) overlong_two_bytes(1)[OF a2] by simp
    have b1: "unat (buffer ! (j + 1)) = 128 + unat a mod 64" using that(5) overlong_two_bytes(2)[OF a2] by simp
    from inv[OF l] b0 q have "unat (buffer ! j) = 192 \<and> unat (buffer ! (j + 1)) = 128" by simp
    then have "unat a div 64 = 0" "unat a mod 64 = 0" using b0 b1 by simp_all
    then have "unat a = 0" by (metis add.right_neutral mult_zero_right mult_div_mod_eq)
    then show False using a(1) by simp
  qed
  show ?thesis using three cont nul overlong legal_C0_80 by blast
qed

theorem C3_validator_rejects_witness:
  "\<not> is_legal_utf8 [0x41, 0xE2, 0x41, 0xAC] 4 True
   \<and> \<not> is_legal_utf8 [0x41, 0x80, 0x42] 3 True
   \<and> \<not> is_legal_utf8 [0x41, 0x00, 0x42] 3 True
   \<and> \<not> is_legal_utf8 [0xC1, 0x81] 2 False
   \<and> is_legal_utf8 [0xC0, 0x80] 2 False"
proof -
  have 1: "\<not> is_legal_utf8 [0x41, 0xE2, 0x41, 0xAC] 4 True"
    using C3_validator_rejects[where len=4 and buffer="[0x41, 0xE2, 0x41, 0xAC]" and j=1 and v=True and a="0"] by simp
  have 2: "\<not> is_legal_utf8 [0x41, 0x80, 0x42] 3 True"
    using C3_validator_rejects[where len=3 and buffer="[0x41, 0x80, 0x42]" and j=1 and v=True and a="0"] by simp
  have 3: "\<not> is_legal_utf8 [0x41, 0x00, 0x42] 3 True"
    using C3_validator_rejects[where len=3 and buffer="[0x41, 0x00, 0x42]" and j=1 and v=True and a="0"] by simp
  have 4: "\<not> is_legal_utf8 [0xC1, 0x81] 2 False"
    using C3_validator_rejects[where len=2 and buffer="[0xC1, 0x81]" and j=0 and v=False and a="0x41"] by simp
  have 5: "is_legal_utf8 [0xC0, 0x80] 2 False"
    using C3_validator_rejects[where len=2 and buffer="[0xC0, 0x80]" and j=0 and v=False and a="0"] by simp
  show ?thesis using 1 2 3 4 5 by simp
qed

section \<open>The lenient decoder\<close>

lemma UTF8_next_cases:
  fixes mem :: "u_char list"
  assumes "str < length mem"
  defines "ch \<equiv> mem ! str"
  shows "unat ch < 128 \<Longrightarrow>
           (UTF8_next mem str :: ('a::len word \<times> nat) option) = Some (ucast (ucast ch :: jchar), str + 1)"
    and "(128 \<le> unat ch \<and> unat ch \<le> 191) \<or> 240 \<le> unat ch \<Longrightarrow>
           (UTF8_next mem str :: ('a::len word \<times> nat) option) = Some (ucast ch, str + 1)"
    and "192 \<le> unat ch \<Longrightarrow> unat ch \<le> 223 \<Longrightarrow> str + 1 < length mem \<Longrightarrow>
           (UTF8_next mem str :: ('a::len word \<times> nat) option) =
             (if mem ! (str + 1) AND 0xC0 = 0x80
              then Some (ucast (push_bit 6 (ucast (ch AND 0x1F)) + ucast (mem ! (str + 1) AND 0x3F) :: jchar), str + 2)
              else Some (ucast ch, str + 1))"
    and "224 \<le> unat ch \<Longrightarrow> unat ch \<le> 239 \<Longrightarrow> str + 1 < length mem \<Longrightarrow>
           mem ! (str + 1) AND 0xC0 \<noteq> 0x80 \<Longrightarrow>
           (UTF8_next mem str :: ('a::len word \<times> nat) option) = Some (ucast ch, str + 1)"
    and "224 \<le> unat ch \<Longrightarrow> unat ch \<le> 239 \<Longrightarrow> str + 2 < length mem \<Longrightarrow>
           mem ! (str + 1) AND 0xC0 = 0x80 \<Longrightarrow>
           (UTF8_next mem str :: ('a::len word \<times> nat) option) =
             (if mem ! (str + 2) AND 0xC0 = 0x80
              then Some (ucast (push_bit 6 (push_bit 6 (ucast (ch AND 0x0f)) + ucast (mem ! (str + 1) AND 0x3f))
                                 + ucast (mem ! (str + 2) AND 0x3f) :: jchar), str + 3)
              else Some (ucast ch, str + 1))"
proof -
  have ld: "load mem str = Some ch" using assms(1) by (simp add: load_def ch_def)
  {
    assume a: "unat ch < 128"
    have nb: "\<not> (drop_bit 4 ch = 0x8 \<or> drop_bit 4 ch = 0x9 \<or> drop_bit 4 ch = 0xA \<or> drop_bit 4 ch = 0xB \<or> drop_bit 4 ch = 0xF)"
      using a by (simp only: nibble_bad) arith
    have ncd: "\<not> (drop_bit 4 ch = 0xC \<or> drop_bit 4 ch = 0xD)" using a by (simp only: nibble_CD) arith
    have ne: "\<not> drop_bit 4 ch = 0xE" using a by (simp only: nibble_E) arith
    show "(UTF8_next mem str :: ('a::len word \<times> nat) option) = Some (ucast (ucast ch :: jchar), str + 1)"
      unfolding UTF8_next_def using ld nb ncd ne by (simp add: Let_def)
  }
  {
    assume a: "(128 \<le> unat ch \<and> unat ch \<le> 191) \<or> 240 \<le> unat ch"
    have nb: "drop_bit 4 ch = 0x8 \<or> drop_bit 4 ch = 0x9 \<or> drop_bit 4 ch = 0xA \<or> drop_bit 4 ch = 0xB \<or> drop_bit 4 ch = 0xF"
      using a by (simp only: nibble_bad)
    show "(UTF8_next mem str :: ('a::len word \<times> nat) option) = Some (ucast ch, str + 1)"
      unfolding UTF8_next_def using ld nb by (simp add: Let_def)
  }
  {
    assume a: "192 \<le> unat ch" "unat ch \<le> 223" and l1: "str + 1 < length mem"
    have nb: "\<not> (drop_bit 4 ch = 0x8 \<or> drop_bit 4 ch = 0x9 \<or> drop_bit 4 ch = 0xA \<or> drop_bit 4 ch = 0xB \<or> drop_bit 4 ch = 0xF)"
      using a by (simp only: nibble_bad) arith
    have cd: "drop_bit 4 ch = 0xC \<or> drop_bit 4 ch = 0xD" using a by (simp only: nibble_CD simp_thms)
    have ld1: "load mem (str + 1) = Some (mem ! (str + 1))" using l1 by (simp add: load_def)
    show "(UTF8_next mem str :: ('a::len word \<times> nat) option) =
             (if mem ! (str + 1) AND 0xC0 = 0x80
              then Some (ucast (push_bit 6 (ucast (ch AND 0x1F)) + ucast (mem ! (str + 1) AND 0x3F) :: jchar), str + 2)
              else Some (ucast ch, str + 1))"
      unfolding UTF8_next_def using ld ld1 nb cd by (simp add: Let_def)
  }
  {
    assume a: "224 \<le> unat ch" "unat ch \<le> 239" and l1: "str + 1 < length mem"
      and c: "mem ! (str + 1) AND 0xC0 \<noteq> 0x80"
    have nb: "\<not> (drop_bit 4 ch = 0x8 \<or> drop_bit 4 ch = 0x9 \<or> drop_bit 4 ch = 0xA \<or> drop_bit 4 ch = 0xB \<or> drop_bit 4 ch = 0xF)"
      using a by (simp only: nibble_bad) arith
    have ncd: "\<not> (drop_bit 4 ch = 0xC \<or> drop_bit 4 ch = 0xD)" using a by (simp only: nibble_CD) arith
    have e: "drop_bit 4 ch = 0xE" using a by (simp only: nibble_E simp_thms)
    have ld1: "load mem (str + 1) = Some (mem ! (str + 1))" using l1 by (simp add: load_def)
    show "(UTF8_next mem str :: ('a::len word \<times> nat) option) = Some (ucast ch, str + 1)"
      unfolding UTF8_next_def using ld ld1 nb ncd e c by (simp add: Let_def)
  }
  {
    assume a: "224 \<le> unat ch" "unat ch \<le> 239" and l2: "str + 2 < length mem"
      and c: "mem ! (str + 1) AND 0xC0 = 0x80"
    have nb: "\<not> (drop_bit 4 ch = 0x8 \<or> drop_bit 4 ch = 0x9 \<or> drop_bit 4 ch = 0xA \<or> drop_bit 4 ch = 0xB \<or> drop_bit 4 ch = 0xF)"
      using a by (simp only: nibble_bad) arith
    have ncd: "\<not> (drop_bit 4 ch = 0xC \<or> drop_bit 4 ch = 0xD)" using a by (simp only: nibble_CD) arith
    have e: "drop_bit 4 ch = 0xE" using a by (simp only: nibble_E simp_thms)
    have ld1: "load mem (str + 1) = Some (mem ! (str + 1))" using l2 by (simp add: load_def)
    have ld2: "load mem (str + 2) = Some (mem ! (str + 2))" using l2 by (simp add: load_def)
    show "(UTF8_next mem str :: ('a::len word \<times> nat) option) =
             (if mem ! (str + 2) AND 0xC0 = 0x80
              then Some (ucast (push_bit 6 (push_bit 6 (ucast (ch AND 0x0f)) + ucast (mem ! (str + 1) AND 0x3f))
                                 + ucast (mem ! (str + 2) AND 0x3f) :: jchar), str + 3)
              else Some (ucast ch, str + 1))"
      unfolding UTF8_next_def using ld ld1 ld2 nb ncd e c by (simp add: Let_def)
  }
qed


text \<open>
  Claim C7. \<^verbatim>\<open>UTF8::next\<close> on a NUL-terminated string never fails: it returns a value and
  a pointer that is advanced by at least 1 and at most 3 bytes. When the lead byte has
  high nibble \<open>0x8\<close>, \<open>0x9\<close>, \<open>0xA\<close>, \<open>0xB\<close> or \<open>0xF\<close>, or when a continuation byte that
  the lead byte calls for does not have the top bits \<open>10\<close>, the value stored is the lead
  byte itself and the pointer is advanced by exactly 1. This holds for both
  instantiations (\<^verbatim>\<open>jchar\<close> and \<^verbatim>\<open>jbyte\<close>) of the template.
\<close>

theorem C7_next_lenient:
  fixes mem :: "u_char list"
  assumes "str < length mem" and "last mem = 0"
  shows "\<exists>(v :: 'a::len word) n.
           UTF8_next mem str = Some (v, str + n) \<and> 1 \<le> n \<and> n \<le> 3
         \<and> ((drop_bit 4 (mem ! str) = 0x8 \<or> drop_bit 4 (mem ! str) = 0x9 \<or> drop_bit 4 (mem ! str) = 0xA
               \<or> drop_bit 4 (mem ! str) = 0xB \<or> drop_bit 4 (mem ! str) = 0xF)
              \<or> ((drop_bit 4 (mem ! str) = 0xC \<or> drop_bit 4 (mem ! str) = 0xD)
                   \<and> mem ! (str + 1) AND 0xC0 \<noteq> 0x80)
              \<or> (drop_bit 4 (mem ! str) = 0xE
                   \<and> (mem ! (str + 1) AND 0xC0 \<noteq> 0x80 \<or> mem ! (str + 2) AND 0xC0 \<noteq> 0x80))
             \<longrightarrow> v = ucast (mem ! str) \<and> n = 1)"
proof -
  let ?ch = "mem ! str"
  let ?bad = "drop_bit 4 ?ch = 0x8 \<or> drop_bit 4 ?ch = 0x9 \<or> drop_bit 4 ?ch = 0xA
               \<or> drop_bit 4 ?ch = 0xB \<or> drop_bit 4 ?ch = 0xF"
  let ?cd = "drop_bit 4 ?ch = 0xC \<or> drop_bit 4 ?ch = 0xD"
  let ?e = "drop_bit 4 ?ch = 0xE"
  have bad: "?bad \<longleftrightarrow> (128 \<le> unat ?ch \<and> unat ?ch \<le> 191) \<or> 240 \<le> unat ?ch" by (rule nibble_bad)
  have cd: "?cd \<longleftrightarrow> 192 \<le> unat ?ch \<and> unat ?ch \<le> 223" by (rule nibble_CD)
  have e: "?e \<longleftrightarrow> 224 \<le> unat ?ch \<and> unat ?ch \<le> 239" by (rule nibble_E)
  have ne: "mem \<noteq> []" using assms(1) by auto
  have nul: "mem ! (length mem - 1) = 0" using assms(2) ne by (simp add: last_conv_nth)
  have next1: "str + 1 < length mem" if "mem ! str \<noteq> 0"
  proof -
    have "str \<noteq> length mem - 1" using that nul by auto
    then show ?thesis using assms(1) by simp
  qed
  have next2: "str + 2 < length mem" if "mem ! str \<noteq> 0" "mem ! (str + 1) \<noteq> 0"
  proof -
    have "str + 1 \<noteq> length mem - 1" using that(2) nul by auto
    then show ?thesis using next1[OF that(1)] by simp
  qed
  consider (ascii) "unat ?ch < 128" | (illegal) "(128 \<le> unat ?ch \<and> unat ?ch \<le> 191) \<or> 240 \<le> unat ?ch"
    | (two) "192 \<le> unat ?ch" "unat ?ch \<le> 223" | (three) "224 \<le> unat ?ch" "unat ?ch \<le> 239"
    by linarith
  then show ?thesis
  proof cases
    case ascii
    have "\<not> ?bad" "\<not> ?cd" "\<not> ?e" using ascii unfolding bad cd e by simp_all
    then show ?thesis using UTF8_next_cases(1)[OF assms(1) ascii, where ?'a='a]
      by (intro exI[of _ "ucast (ucast ?ch :: jchar)"] exI[of _ 1]) simp
  next
    case illegal
    show ?thesis using UTF8_next_cases(2)[OF assms(1) illegal, where ?'a='a]
      by (intro exI[of _ "ucast ?ch"] exI[of _ 1]) simp
  next
    case two
    have nz: "mem ! str \<noteq> 0" using two by (auto simp: byte_eq_0)
    have nb: "\<not> ?bad" "?cd" "\<not> ?e" using two unfolding bad cd e by simp_all
    note eq = UTF8_next_cases(3)[OF assms(1) two next1[OF nz], where ?'a='a]
    show ?thesis
    proof (cases "mem ! (str + 1) AND 0xC0 = 0x80")
      case True
      then show ?thesis using eq nb
        by (intro exI[of _ "ucast (push_bit 6 (ucast (?ch AND 0x1F)) + ucast (mem ! (str + 1) AND 0x3F) :: jchar)"]
              exI[of _ 2]) simp
    next
      case False
      then show ?thesis using eq by (intro exI[of _ "ucast ?ch"] exI[of _ 1]) simp
    qed
  next
    case three
    have nz: "mem ! str \<noteq> 0" using three by (auto simp: byte_eq_0)
    have nb: "\<not> ?bad" "\<not> ?cd" "?e" using three unfolding bad cd e by simp_all
    show ?thesis
    proof (cases "mem ! (str + 1) AND 0xC0 = 0x80")
      case False
      then show ?thesis using UTF8_next_cases(4)[OF assms(1) three next1[OF nz] False, where ?'a='a]
        by (intro exI[of _ "ucast ?ch"] exI[of _ 1]) simp
    next
      case True
      then have "mem ! (str + 1) \<noteq> 0" by auto
      note eq = UTF8_next_cases(5)[OF assms(1) three next2[OF nz this] True, where ?'a='a]
      show ?thesis
      proof (cases "mem ! (str + 2) AND 0xC0 = 0x80")
        case c3: True
        then show ?thesis using eq nb True
          by (intro exI[of _ "ucast (push_bit 6 (push_bit 6 (ucast (?ch AND 0x0f)) + ucast (mem ! (str + 1) AND 0x3f))
                                 + ucast (mem ! (str + 2) AND 0x3f) :: jchar)"] exI[of _ 3]) simp
      next
        case c3: False
        then show ?thesis using eq by (intro exI[of _ "ucast ?ch"] exI[of _ 1]) simp
      qed
    qed
  qed
qed

theorem C7_next_lenient_witness:
  "\<exists>(v :: jchar) n.
           UTF8_next [0xE2, 0x82, 0x41, 0] 0 = Some (v, 0 + n) \<and> 1 \<le> n \<and> n \<le> 3
         \<and> ((drop_bit 4 ([0xE2, 0x82, 0x41, 0 :: u_char] ! 0) = 0x8 \<or> drop_bit 4 ([0xE2, 0x82, 0x41, 0 :: u_char] ! 0) = 0x9 \<or> drop_bit 4 ([0xE2, 0x82, 0x41, 0 :: u_char] ! 0) = 0xA
               \<or> drop_bit 4 ([0xE2, 0x82, 0x41, 0 :: u_char] ! 0) = 0xB \<or> drop_bit 4 ([0xE2, 0x82, 0x41, 0 :: u_char] ! 0) = 0xF)
              \<or> ((drop_bit 4 ([0xE2, 0x82, 0x41, 0 :: u_char] ! 0) = 0xC \<or> drop_bit 4 ([0xE2, 0x82, 0x41, 0 :: u_char] ! 0) = 0xD)
                   \<and> [0xE2, 0x82, 0x41, 0 :: u_char] ! (0 + 1) AND 0xC0 \<noteq> 0x80)
              \<or> (drop_bit 4 ([0xE2, 0x82, 0x41, 0 :: u_char] ! 0) = 0xE
                   \<and> ([0xE2, 0x82, 0x41, 0 :: u_char] ! (0 + 1) AND 0xC0 \<noteq> 0x80 \<or> [0xE2, 0x82, 0x41, 0 :: u_char] ! (0 + 2) AND 0xC0 \<noteq> 0x80))
             \<longrightarrow> v = ucast ([0xE2, 0x82, 0x41, 0 :: u_char] ! 0) \<and> n = 1)"
  by (rule C7_next_lenient[of 0 "[0xE2, 0x82, 0x41, 0]"]) simp_all

section \<open>Round trip of one character\<close>

lemma mod_offset:
  assumes "(x::nat) = r + m * k" "r < m"
  shows "x mod m = r"
  using assms by simp

lemma div_offset:
  assumes "(x::nat) = r + m * k" "r < m"
  shows "x div m = k"
  using assms by simp

lemma div_mod_shift:
  assumes "(x::nat) = r + m * k" "0 < m"
  shows "x div m = k + r div m" "x mod m = r mod m"
  using assms by simp_all

lemma lead_ED_not_surrogate:
  assumes "(n::nat) < 65536" "\<not> (0xD800 \<le> n \<and> n \<le> 0xDFFF)" "224 + n div 4096 = 237"
  shows "128 + n div 64 mod 64 < 160"
proof -
  have d: "n div 4096 = 13" using assms(3) by simp
  have "n = 4096 * (n div 4096) + n mod 4096" by simp
  then have n: "n = 53248 + n mod 4096" using d by simp
  have "n mod 4096 < 4096" by simp
  then have "53248 \<le> n" "n \<le> 57343" using n by linarith+
  then have lo: "53248 \<le> n" and hi: "n \<le> 55295" using assms(2) by simp_all
  have "53248 div 64 \<le> n div 64" using lo by (rule div_le_mono)
  then have q1: "832 \<le> n div 64" by simp
  have "n div 64 \<le> 55295 div 64" using hi by (rule div_le_mono)
  then have q2: "n div 64 \<le> 863" by simp
  have "n div 64 = (n div 64 - 832) + 64 * 13" using q1 by simp
  moreover have "n div 64 - 832 < 64" using q2 by simp
  ultimately have "n div 64 mod 64 = n div 64 - 832" by (rule mod_offset)
  then show ?thesis using q2 by simp
qed

lemma hi_surrogate_bytes:
  assumes "(n::nat) = 0xD800 + v" "v \<le> 1023"
  shows "n div 4096 = 13" "n div 64 mod 64 = 32 + v div 64" "n mod 64 = v mod 64" "v div 64 \<le> 15"
proof -
  have "n = (2048 + v) + 4096 * 13" using assms by simp
  moreover have "2048 + v < 4096" using assms by simp
  ultimately show "n div 4096 = 13" by (rule div_offset)
  have "v div 64 \<le> 1023 div 64" using assms(2) by (rule div_le_mono)
  then show q: "v div 64 \<le> 15" by simp
  have "n = v + 64 * 864" using assms by simp
  then have nd: "n div 64 = 864 + v div 64" and nm: "n mod 64 = v mod 64"
    by (rule div_mod_shift[OF _ zero_less_numeral])+
  show "n mod 64 = v mod 64" by (rule nm)
  have "n div 64 = (32 + v div 64) + 64 * 13" using nd by simp
  moreover have "32 + v div 64 < 64" using q by simp
  ultimately show "n div 64 mod 64 = 32 + v div 64" by (rule mod_offset)
qed

lemma lo_surrogate_bytes:
  assumes "(n::nat) = 0xDC00 + w" "w \<le> 1023"
  shows "n div 4096 = 13" "n div 64 mod 64 = 48 + w div 64" "n mod 64 = w mod 64" "w div 64 \<le> 15"
proof -
  have "n = (3072 + w) + 4096 * 13" using assms by simp
  moreover have "3072 + w < 4096" using assms by simp
  ultimately show "n div 4096 = 13" by (rule div_offset)
  have "w div 64 \<le> 1023 div 64" using assms(2) by (rule div_le_mono)
  then show q: "w div 64 \<le> 15" by simp
  have "n = w + 64 * 880" using assms by simp
  then have nd: "n div 64 = 880 + w div 64" and nm: "n mod 64 = w mod 64"
    by (rule div_mod_shift[OF _ zero_less_numeral])+
  show "n mod 64 = w mod 64" by (rule nm)
  have "n div 64 = (48 + w div 64) + 64 * 13" using nd by simp
  moreover have "48 + w div 64 < 64" using q by simp
  ultimately show "n div 64 mod 64 = 48 + w div 64" by (rule mod_offset)
qed

lemma supplementary_value:
  "65536 + (v div 64) * 65536 + (v mod 64) * 1024 + (w div 64) * 64 + w mod 64 = 65536 + v * 1024 + (w::nat)"
proof -
  have "(v div 64) * 65536 + (v mod 64) * 1024 = (v div 64 * 64) * 1024 + (v mod 64) * 1024" by simp
  also have "\<dots> = (v div 64 * 64 + v mod 64) * 1024" by (rule add_mult_distrib[symmetric])
  also have "\<dots> = v * 1024" by simp
  finally have "(v div 64) * 65536 + (v mod 64) * 1024 = v * 1024" .
  moreover have "(w div 64) * 64 + w mod 64 = w" by simp
  ultimately show ?thesis by simp
qed

lemma supplementary_split:
  assumes "0x10000 \<le> (p::nat)" "p \<le> 0x10FFFF"
  shows "(p - 0x10000) div 0x400 \<le> 1023" "(p - 0x10000) mod 0x400 \<le> 1023"
    "65536 + ((p - 0x10000) div 0x400) * 1024 + (p - 0x10000) mod 0x400 = p"
proof -
  have "(p - 0x10000) div 0x400 \<le> 0xFFFFF div 0x400" using assms(2) by (intro div_le_mono) simp
  then show "(p - 0x10000) div 0x400 \<le> 1023" by simp
  have "(p - 0x10000) mod 0x400 < 0x400" by simp
  then show "(p - 0x10000) mod 0x400 \<le> 1023" by simp
  have "((p - 0x10000) div 0x400) * 1024 + (p - 0x10000) mod 0x400 = p - 0x10000" by simp
  then show "65536 + ((p - 0x10000) div 0x400) * 1024 + (p - 0x10000) mod 0x400 = p"
    using assms(1) by simp
qed

lemma low_nibble_offset:
  assumes "(x::nat) = 160 + r \<or> x = 176 + r" "r \<le> 15"
  shows "x mod 16 = r"
proof -
  from assms(1) have "x = r + 16 * 10 \<or> x = r + 16 * 11" by auto
  then show ?thesis using assms(2) by (auto simp: mod_offset)
qed


lemma unat32_less: "unat (w::32 word) < 4294967296"
  using unsigned_less[of w, where ?'a=nat] by simp

lemma unat_ucast_16_32: "unat (ucast (w::16 word) :: 32 word) = unat w"
  using unat16_less[of w] by (simp add: unsigned_ucast_eq take_bit_eq_mod)

lemma unat_push32: "unat (push_bit n (w::32 word)) = (unat w * 2^n) mod 4294967296"
proof -
  have "unat (push_bit n w) = take_bit 32 (push_bit n (unat w))"
    using unsigned_push_bit_eq[of n w, where ?'a=nat] by simp
  also have "\<dots> = (unat w * 2^n) mod 4294967296" by (simp add: take_bit_eq_mod push_bit_eq_mult)
  finally show ?thesis .
qed

lemma word32_of_unat: "unat (x::32 word) = p \<Longrightarrow> x = of_nat p"
  by auto

lemma is_supp_False:
  assumes "str < length mem"
    and "unat (mem ! str) \<noteq> 237
         \<or> (str + 1 < length mem \<and> \<not> (160 \<le> unat (mem ! (str + 1)) \<and> unat (mem ! (str + 1)) \<le> 175))"
  shows "is_supplementary_character mem str = Some False"
  using assms by (auto simp: is_supplementary_character_def load_def and_FF byte_eq_ED and_F0_iff_A)

lemma dec3_bounds:
  assumes "(x::nat) < 16" "y < 64" "z < 64"
  shows "x * 64 < 65536" "x * 64 + y < 65536" "(x * 64 + y) * 64 < 65536" "(x * 64 + y) * 64 + z < 65536"
  using assms by (simp_all add: add_mult_distrib)

lemma next3_unat:
  "unat (push_bit 6 (push_bit 6 (ucast ((b0::u_char) AND 0x0f)) + ucast ((b1::u_char) AND 0x3f))
          + ucast ((b2::u_char) AND 0x3f) :: 16 word)
     = ((unat b0 mod 16) * 64 + unat b1 mod 64) * 64 + unat b2 mod 64"
proof -
  let ?x = "unat b0 mod 16" and ?y = "unat b1 mod 64" and ?z = "unat b2 mod 64"
  have b: "?x < 16" "?y < 64" "?z < 64" by simp_all
  have "unat (push_bit 6 (push_bit 6 (ucast (b0 AND 0x0f)) + ucast (b1 AND 0x3f)) + ucast (b2 AND 0x3f) :: 16 word)
      = ((?x * 2 ^ 6 mod 65536 + ?y) mod 2 ^ LENGTH(16) * 2 ^ 6 mod 65536 + ?z) mod 2 ^ LENGTH(16)"
    by (simp only: unat_word_ariths unat_push16 unat_ucast_8_16 unat_and_F unat_and_3F)
  also have "\<dots> = (?x * 64 + ?y) * 64 + ?z"
    using dec3_bounds[OF b] by simp
  finally show ?thesis .
qed

lemma get_supp_unat:
  assumes "str + 5 < length mem"
  shows "\<exists>x. get_supplementary_character mem str = Some x
      \<and> unat x = 65536 + (unat (mem ! (str + 1)) mod 16) * 65536 + (unat (mem ! (str + 2)) mod 64) * 1024
                 + (unat (mem ! (str + 4)) mod 16) * 64 + unat (mem ! (str + 5)) mod 64"
proof -
  let ?b1 = "mem ! (str + 1)" and ?b2 = "mem ! (str + 2)" and ?b4 = "mem ! (str + 4)" and ?b5 = "mem ! (str + 5)"
  let ?x = "0x10000 + push_bit 16 (ucast (?b1 AND 0x0f)) + push_bit 10 (ucast (?b2 AND 0x3f))
                        + push_bit 6 (ucast (?b4 AND 0x0f)) + ucast (?b5 AND 0x3f) :: jint"
  let ?a = "unat ?b1 mod 16" and ?b = "unat ?b2 mod 64" and ?c = "unat ?b4 mod 16" and ?d = "unat ?b5 mod 64"
  have bd: "?a < 16" "?b < 64" "?c < 16" "?d < 64" by simp_all
  have g: "get_supplementary_character mem str = Some ?x"
    using assms by (simp add: get_supplementary_character_def load_def)
  have "unat ?x = ((((65536 + ?a * 2 ^ 16 mod 4294967296) mod 2 ^ LENGTH(32) + ?b * 2 ^ 10 mod 4294967296) mod 2 ^ LENGTH(32)
                   + ?c * 2 ^ 6 mod 4294967296) mod 2 ^ LENGTH(32) + ?d) mod 2 ^ LENGTH(32)"
    by (simp only: unat_word_ariths unat_push32 unat_ucast_8_32 unat_and_F unat_and_3F) simp
  also have "\<dots> = 65536 + ?a * 65536 + ?b * 1024 + ?c * 64 + ?d"
  proof -
    have 1: "?a * 65536 < 1048576" using bd by linarith
    have 2: "?b * 1024 < 65536" using bd by linarith
    have 3: "?c * 64 < 1024" using bd by linarith
    show ?thesis using 1 2 3 bd by simp
  qed
  finally show ?thesis using g by blast
qed


lemma val3': "(((n::nat) div 4096) * 64 + n div 64 mod 64) * 64 + n mod 64 = n"
proof -
  have "((n div 4096) * 64 + n div 64 mod 64) * 64 = n div 4096 * 4096 + n div 64 mod 64 * 64"
    by (simp add: add_mult_distrib)
  then show ?thesis using val3[of n] by simp
qed

lemma next_character_bmp:
  assumes "mem = pre @ utf8_bytes c @ rest" and "\<not> (0xD800 \<le> unat c \<and> unat c \<le> 0xDFFF)"
  shows "next_character mem (length pre) = Some (ucast c, length pre + utf8_size c)"
proof (cases c rule: utf8_bytes_cases)
  case (one b)
  let ?i = "length pre"
  have sz: "utf8_size c = 1" using length_utf8_bytes[of c] one by simp
  have m: "mem ! ?i = b" "?i < length mem" using assms(1) one by simp_all
  have b: "unat (mem ! ?i) < 128" using m one by simp
  have s: "is_supplementary_character mem ?i = Some False"
    using m(2) b by (intro is_supp_False) simp_all
  have n: "(UTF8_next mem ?i :: (jchar \<times> nat) option) = Some (ucast (ucast b :: jchar), ?i + 1)"
    using UTF8_next_cases(1)[OF m(2) b, where ?'a=16] m(1) by simp
  have "unat (ucast (ucast (ucast b :: jchar) :: jchar) :: jint) = unat (ucast c :: jint)"
    using one by (simp add: unat_ucast_16_32 unat_ucast_8_16)
  then have v: "(ucast (ucast (ucast b :: jchar) :: jchar) :: jint) = ucast c"
    by (simp only: word_unat_eq_iff)
  show ?thesis using s n v sz by (simp add: next_character_def)
next
  case (two b0 b1)
  let ?i = "length pre"
  have sz: "utf8_size c = 2" using length_utf8_bytes[of c] two by simp
  have m: "mem ! ?i = b0" "mem ! (?i + 1) = b1" "?i < length mem" "?i + 1 < length mem"
    using assms(1) two by (simp_all add: nth_append)
  have r0: "192 \<le> unat b0" "unat b0 < 224" "unat b0 mod 32 = unat c div 64"
    using two_lead[OF two(5) two(2)] by simp_all
  have r1: "128 \<le> unat b1" "unat b1 \<le> 191" "unat b1 mod 64 = unat c mod 64"
    using cont_low[OF two(3)] by simp_all
  have s: "is_supplementary_character mem ?i = Some False"
    using m r0 by (intro is_supp_False) simp_all
  have c1: "mem ! (?i + 1) AND 0xC0 = 0x80" using m r1 by (simp add: cont_iff)
  have n: "(UTF8_next mem ?i :: (jchar \<times> nat) option)
      = Some (ucast (push_bit 6 (ucast (b0 AND 0x1F)) + ucast (b1 AND 0x3F) :: jchar), ?i + 2)"
    using UTF8_next_cases(3)[OF m(3), where ?'a=16] m r0 c1 by simp
  have "unat (push_bit 6 (ucast (b0 AND 0x1F)) + ucast (b1 AND 0x3F) :: jchar) = unat c"
    using r0 r1 val2[of "unat c"] by (simp only: c2_unat)
  then have v: "(push_bit 6 (ucast (b0 AND 0x1F)) + ucast (b1 AND 0x3F) :: jchar) = c"
    by (simp only: word_unat_eq_iff)
  show ?thesis using s n sz unfolding v by (simp add: next_character_def)
next
  case (three b0 b1 b2)
  let ?i = "length pre"
  have sz: "utf8_size c = 3" using length_utf8_bytes[of c] three by simp
  have m: "mem ! ?i = b0" "mem ! (?i + 1) = b1" "mem ! (?i + 2) = b2" "?i < length mem" "?i + 2 < length mem"
    using assms(1) three by (simp_all add: nth_append)
  have r0: "224 \<le> unat b0" "unat b0 \<le> 239" "unat b0 mod 16 = unat c div 4096"
    using three_lead[OF unat16_less three(2)] by simp_all
  have r1: "128 \<le> unat b1" "unat b1 \<le> 191" "unat b1 mod 64 = unat c div 64 mod 64"
    using cont_low[OF three(3)] by simp_all
  have r2: "128 \<le> unat b2" "unat b2 \<le> 191" "unat b2 mod 64 = unat c mod 64"
    using cont_low[OF three(4)] by simp_all
  have "unat b0 = 237 \<Longrightarrow> unat b1 < 160"
    using lead_ED_not_surrogate[OF unat16_less assms(2)] three(2,3) by simp
  then have "unat (mem ! ?i) \<noteq> 237
         \<or> (?i + 1 < length mem \<and> \<not> (160 \<le> unat (mem ! (?i + 1)) \<and> unat (mem ! (?i + 1)) \<le> 175))"
    using m by auto
  then have s: "is_supplementary_character mem ?i = Some False"
    using m(4) by (intro is_supp_False)
  have c1: "mem ! (?i + 1) AND 0xC0 = 0x80" using m r1 by (simp add: cont_iff)
  have c2: "mem ! (?i + 2) AND 0xC0 = 0x80" using m r2 by (simp add: cont_iff)
  have n: "(UTF8_next mem ?i :: (jchar \<times> nat) option)
      = Some (ucast (push_bit 6 (push_bit 6 (ucast (b0 AND 0x0f)) + ucast (b1 AND 0x3f))
                                 + ucast (b2 AND 0x3f) :: jchar), ?i + 3)"
    using UTF8_next_cases(5)[OF m(4) _ _ m(5) c1, where ?'a=16] m r0 c2 by simp
  have "unat (push_bit 6 (push_bit 6 (ucast (b0 AND 0x0f)) + ucast (b1 AND 0x3f)) + ucast (b2 AND 0x3f) :: jchar)
          = unat c"
    using r0 r1 r2 val3'[of "unat c"] by (simp only: next3_unat)
  then have v: "(push_bit 6 (push_bit 6 (ucast (b0 AND 0x0f)) + ucast (b1 AND 0x3f)) + ucast (b2 AND 0x3f) :: jchar) = c"
    by (simp only: word_unat_eq_iff)
  show ?thesis using s n sz unfolding v by (simp add: next_character_def)
qed

lemma next_character_supp:
  assumes "mem = pre @ utf8_bytes hi @ utf8_bytes lo @ rest"
    and "unat hi = 0xD800 + v" "v \<le> 1023" "unat lo = 0xDC00 + w" "w \<le> 1023"
  shows "next_character mem (length pre) = Some (of_nat (65536 + v * 1024 + w), length pre + 6)"
proof -
  let ?i = "length pre"
  obtain b0 b1 b2 where hb: "utf8_bytes hi = [b0, b1, b2]" "unat b0 = 224 + unat hi div 4096"
      "unat b1 = 128 + unat hi div 64 mod 64" "unat b2 = 128 + unat hi mod 64"
  proof (cases hi rule: utf8_bytes_cases)
    case (one b) then show ?thesis using assms(2) by simp
  next
    case (two x y) then show ?thesis using assms(2) by simp
  next
    case (three x y z) then show ?thesis using that by simp
  qed
  obtain d0 d1 d2 where lb: "utf8_bytes lo = [d0, d1, d2]" "unat d0 = 224 + unat lo div 4096"
      "unat d1 = 128 + unat lo div 64 mod 64" "unat d2 = 128 + unat lo mod 64"
  proof (cases lo rule: utf8_bytes_cases)
    case (one b) then show ?thesis using assms(4) by simp
  next
    case (two x y) then show ?thesis using assms(4) by simp
  next
    case (three x y z) then show ?thesis using that by simp
  qed
  note h = hi_surrogate_bytes[OF assms(2,3)]
  note l = lo_surrogate_bytes[OF assms(4,5)]
  have mem: "mem = pre @ [b0, b1, b2, d0, d1, d2] @ rest" using assms(1) hb(1) lb(1) by simp
  have len: "?i + 5 < length mem" using mem by simp
  have m: "mem ! ?i = b0" "mem ! (?i + 1) = b1" "mem ! (?i + 2) = b2"
          "mem ! (?i + 3) = d0" "mem ! (?i + 4) = d1" "mem ! (?i + 5) = d2"
    unfolding mem by (simp_all add: nth_append)
  have u: "unat b0 = 237" "unat b1 = 160 + v div 64" "unat b2 = 128 + v mod 64"
          "unat d0 = 237" "unat d1 = 176 + w div 64" "unat d2 = 128 + w mod 64"
    using hb(2-4) lb(2-4) h(1-3) l(1-3) by simp_all
  have vm: "v mod 64 < 64" "w mod 64 < 64" by simp_all
  have vm': "v mod 64 \<le> 63" "w mod 64 \<le> 63" using vm by linarith+
  have pat: "supp_pattern mem ?i"
    unfolding supp_pattern_def m using u h(4) l(4) vm' by simp
  have s: "is_supplementary_character mem ?i = Some True"
    using is_supp_unat[OF len] pat by simp
  obtain x where g: "get_supplementary_character mem ?i = Some x"
      "unat x = 65536 + (unat b1 mod 16) * 65536 + (unat b2 mod 64) * 1024
                 + (unat d1 mod 16) * 64 + unat d2 mod 64"
    using get_supp_unat[OF len] unfolding m by blast
  have "unat b1 mod 16 = v div 64" using low_nibble_offset[of "unat b1" "v div 64"] u h(4) by simp
  moreover have "unat d1 mod 16 = w div 64" using low_nibble_offset[of "unat d1" "w div 64"] u l(4) by simp
  moreover have "unat b2 mod 64 = v mod 64" using cont_low[OF u(3) vm(1)] by simp
  moreover have "unat d2 mod 64 = w mod 64" using cont_low[OF u(6) vm(2)] by simp
  ultimately have "unat x = 65536 + v * 1024 + w"
    using g(2) supplementary_value[of v w] by simp
  then have "x = of_nat (65536 + v * 1024 + w)" by (rule word32_of_unat)
  then show ?thesis using s g(1) by (simp add: next_character_def)
qed

lemma unat_of_nat16: "p < 65536 \<Longrightarrow> unat (of_nat p :: jchar) = p"
  by (simp add: unat_of_nat)

lemma ucast_of_nat16: "p < 65536 \<Longrightarrow> (ucast (of_nat p :: jchar) :: jint) = of_nat p"
proof -
  assume p: "p < 65536"
  have "unat (ucast (of_nat p :: jchar) :: jint) = p" using p by (simp add: unat_ucast_16_32 unat_of_nat16)
  then show ?thesis by (rule word32_of_unat)
qed

lemma utf8_size_unat:
  "utf8_size c = (if 1 \<le> unat c \<and> unat c \<le> 127 then 1 else if unat c \<le> 2047 then 2 else 3)"
  by (simp add: utf8_size_def word_le_nat_alt)

text \<open>
  Claim C1. Round trip of a single character: for every code point \<open>p\<close> up to \<open>0x10FFFF\<close>
  that is not a surrogate (this covers the points \<open>1..0x7F\<close>, \<open>0x80\<close>, \<open>0x7FF\<close>, \<open>0x800\<close>,
  \<open>0x800..0xFFFF\<close> without the surrogates, \<open>0x10000\<close> and \<open>0x10FFFF\<close> of the claim, and
  also 0), writing the UTF-16 code units of \<open>p\<close> with \<^verbatim>\<open>utf8_write\<close>, one call per unit, and
  decoding at the same place with \<^verbatim>\<open>UTF8::next_character\<close> gives \<open>p\<close> again; the encoder's
  end pointer and the decoder's are both \<open>table_size p\<close> bytes after the start: 1 byte for
  \<open>0x01..0x7F\<close>, 2 for 0 and \<open>0x80..0x7FF\<close>, 3 for \<open>0x800..0xFFFF\<close>, 6 above. The buffer
  needs no byte beyond the encoding: the decoder reads none.
\<close>

theorem C1_round_trip:
  assumes "p \<le> 0x10FFFF" and "\<not> (0xD800 \<le> p \<and> p \<le> 0xDFFF)"
    and "base + table_size p \<le> length mem"
  shows "\<exists>mem'. convert_loop mem base (utf16_units p) = Some (mem', base + table_size p)
                \<and> next_character mem' base = Some (of_nat p, base + table_size p)"
proof (cases "p < 0x10000")
  case True
  let ?c = "of_nat p :: jchar"
  have u: "unat ?c = p" using True by (simp add: unat_of_nat16)
  have sz: "utf8_size ?c = table_size p"
    using True unfolding utf8_size_unat u table_size_def by auto
  let ?pre = "take base mem" and ?rest = "drop (base + table_size p) mem"
  let ?m = "?pre @ utf8_bytes ?c @ ?rest"
  have lp: "length ?pre = base" using assms(3) by simp
  have cl: "convert_loop mem base (utf16_units p) = Some (?m, base + table_size p)"
    using convert_loop_eq[of base "[?c]" mem] assms(3) True sz by (simp add: utf16_units_def)
  have "next_character ?m (length ?pre) = Some (ucast ?c, length ?pre + utf8_size ?c)"
    using assms(2) u by (intro next_character_bmp[OF refl]) simp
  then have "next_character ?m base = Some (of_nat p, base + table_size p)"
    unfolding lp sz using ucast_of_nat16[OF True[simplified]] by simp
  then show ?thesis using cl by blast
next
  case False
  let ?v = "(p - 0x10000) div 0x400" and ?w = "(p - 0x10000) mod 0x400"
  let ?hi = "of_nat (0xD800 + ?v) :: jchar" and ?lo = "of_nat (0xDC00 + ?w) :: jchar"
  have p: "0x10000 \<le> p" using False by simp
  note sp = supplementary_split[OF p assms(1)]
  have uh: "unat ?hi = 0xD800 + ?v" using sp(1) by (intro unat_of_nat16) simp
  have ul: "unat ?lo = 0xDC00 + ?w" using sp(2) by (intro unat_of_nat16) simp
  have szh: "utf8_size ?hi = 3" unfolding utf8_size_unat uh by simp
  have szl: "utf8_size ?lo = 3" unfolding utf8_size_unat ul by simp
  have ts: "table_size p = 6" using False by (simp add: table_size_def)
  let ?pre = "take base mem" and ?rest = "drop (base + 6) mem"
  let ?m = "?pre @ utf8_bytes ?hi @ utf8_bytes ?lo @ ?rest"
  have lp: "length ?pre = base" using assms(3) by simp
  have units: "utf16_units p = [?hi, ?lo]" using False by (simp add: utf16_units_def)
  have cl: "convert_loop mem base (utf16_units p) = Some (?m, base + 6)"
    unfolding units using convert_loop_eq[of base "[?hi, ?lo]" mem] assms(3) ts szh szl by simp
  have "next_character ?m (length ?pre) = Some (of_nat (65536 + ?v * 1024 + ?w), length ?pre + 6)"
    using sp(1,2) by (intro next_character_supp[OF refl uh _ ul]) simp_all
  then have "next_character ?m base = Some (of_nat p, base + 6)"
    unfolding lp using sp(3) by simp
  then show ?thesis using cl ts by simp
qed

theorem C1_round_trip_witness:
  "\<exists>mem'. convert_loop (replicate 6 7) 0 (utf16_units 0x1F600) = Some (mem', 0 + table_size 0x1F600)
                \<and> next_character mem' 0 = Some (of_nat 0x1F600, 0 + table_size 0x1F600)"
  by (rule C1_round_trip[of "0x1F600" 0 "replicate 6 7"]) (simp_all add: table_size_def)

section \<open>The truncation repairer\<close>

lemma truncate_scan_skip:
  "index \<le> n \<Longrightarrow> \<forall>k. index < k \<and> k \<le> n \<longrightarrow> \<not> is_starting_byte (buffer ! k) \<Longrightarrow>
   truncate_scan buffer n = truncate_scan buffer index"
proof (induction n)
  case 0
  then show ?case by simp
next
  case (Suc n)
  show ?case
  proof (cases "index = Suc n")
    case True
    then show ?thesis by simp
  next
    case False
    then have "\<not> is_starting_byte (buffer ! Suc n)" "index \<le> n" using Suc.prems by auto
    then show ?thesis using Suc by (simp add: Let_def)
  qed
qed

lemma truncate_scan_fourth_byte:
  assumes "3 \<le> index" "buffer ! index = 0xED" "buffer ! (index - 3) = 0xED"
    and "0xA0 \<le> buffer ! (index - 2)" "buffer ! (index - 2) \<le> 0xAF"
    and "0x80 \<le> buffer ! (index - 1)" "buffer ! (index - 1) \<le> 0xBF"
  shows "truncate_scan buffer index = Inr (buffer[index - 3 := 0])"
proof -
  obtain m where m: "index = Suc m" using assms(1) by (cases index) auto
  have sb: "is_starting_byte (buffer ! Suc m)" using assms(2) m by (simp add: is_starting_byte_def)
  have a: "buffer ! (Suc m - 2) AND 0xF0 = 0xA0"
    using assms(4,5) m by (simp add: and_F0_iff_A word_le_nat_alt)
  show ?thesis unfolding m using sb a assms m by (simp add: Let_def)
qed

lemma truncate_scan_plain:
  assumes "0 < index" "is_starting_byte (buffer ! index)" "buffer ! index \<noteq> 0xED"
  shows "truncate_scan buffer index = Inr (buffer[index := 0])"
proof -
  obtain m where m: "index = Suc m" using assms(1) by (cases index) auto
  show ?thesis unfolding m using assms m by (simp add: Let_def)
qed

lemma legal_loop_cong:
  assumes "\<forall>k<len. b1 ! k = b2 ! k" "len \<le> length b1" "len \<le> length b2"
  shows "legal_loop b1 len v i = legal_loop b2 len v i"
proof (induction "len - i" arbitrary: i rule: less_induct)
  case less
  show ?case
  proof (cases "i < len")
    case False
    then show ?thesis
      by (subst legal_loop_unat[OF assms(2)], subst legal_loop_unat[OF assms(3)]) simp
  next
    case True
    have ih: "legal_loop b1 len v (i + k) = legal_loop b2 len v (i + k)" if "0 < k" for k
      using that True by (intro less.hyps) simp
    have e: "b1 ! (i + k) = b2 ! (i + k)" if "i + k < len" for k using that assms(1) by simp
    have e0: "b1 ! i = b2 ! i" using True assms(1) by simp
    have sp: "supp_pattern b1 i = supp_pattern b2 i" if "i + 5 < len"
    proof -
      have es: "b1 ! (i + 1) = b2 ! (i + 1)" "b1 ! (i + 2) = b2 ! (i + 2)" "b1 ! (i + 3) = b2 ! (i + 3)"
        "b1 ! (i + 4) = b2 ! (i + 4)" "b1 ! (i + 5) = b2 ! (i + 5)"
        using e[of 1] e[of 2] e[of 3] e[of 4] e[of 5] that by simp_all
      show ?thesis unfolding supp_pattern_def es e0 by (rule refl)
    qed
    have e1: "i + 1 < len \<Longrightarrow> b1 ! (i + 1) = b2 ! (i + 1)" by (rule e)
    have e2: "i + 2 < len \<Longrightarrow> b1 ! (i + 1) = b2 ! (i + 1) \<and> b1 ! (i + 2) = b2 ! (i + 2)"
      using e[of 1] e[of 2] by simp
    show ?thesis
      apply (subst legal_loop_unat[OF assms(2)])
      apply (subst legal_loop_unat[OF assms(3)])
      using True e0 sp e1 e2 ih[of 1] ih[of 2] ih[of 3] ih[of 6]
      apply (auto simp: Let_def)
      done
  qed
qed

lemma is_legal_utf8_cong:
  assumes "\<forall>k<len. b1 ! k = b2 ! k" "len \<le> length b1" "len \<le> length b2"
  shows "is_legal_utf8 b1 len v = is_legal_utf8 b2 len v"
  using legal_loop_cong[OF assms] by (simp add: is_legal_utf8_no_fast_path)


lemma truncate_fourth_byte:
  assumes "5 < len" "buffer ! (len - 1) = 0" "\<not> buffer ! (len - 2) < 128"
    and "0 < index" "index \<le> len - 2" "\<forall>k. index < k \<and> k \<le> len - 2 \<longrightarrow> \<not> is_starting_byte (buffer ! k)"
    and "buffer ! index = 0xED" "3 \<le> index" "buffer ! (index - 3) = 0xED"
    and "0xA0 \<le> buffer ! (index - 2)" "buffer ! (index - 2) \<le> 0xAF"
    and "0x80 \<le> buffer ! (index - 1)" "buffer ! (index - 1) \<le> 0xBF"
  shows "truncate_to_legal_utf8 buffer len = Inr (buffer[index - 3 := 0])"
proof -
  have "truncate_to_legal_utf8 buffer len = truncate_scan buffer (len - 2)"
    using assms(1-3) by (simp add: truncate_to_legal_utf8_def)
  also have "\<dots> = truncate_scan buffer index"
    using assms(5,6) by (rule truncate_scan_skip)
  also have "\<dots> = Inr (buffer[index - 3 := 0])"
    using assms(8,7,9-13) by (rule truncate_scan_fourth_byte)
  finally show ?thesis .
qed

lemma truncate_high_surrogate_then_ED:
  assumes "pre \<noteq> []"
  shows "truncate_to_legal_utf8 (pre @ [0xED, 0xA0, 0xBD, 0xED, 0]) (length pre + 5)
           = Inr (pre @ [0, 0xA0, 0xBD, 0xED, 0])"
proof -
  let ?b = "pre @ [0xED, 0xA0, 0xBD, 0xED, 0]"
  let ?n = "length pre"
  have n: "0 < ?n" using assms by simp
  have b: "?b ! ?n = 0xED" "?b ! (?n + 1) = 0xA0" "?b ! (?n + 2) = 0xBD" "?b ! (?n + 3) = 0xED"
    "?b ! (?n + 4) = 0"
    by (simp_all add: nth_append)
  have "truncate_to_legal_utf8 ?b (?n + 5) = Inr (?b[(?n + 3) - 3 := 0])"
  proof (rule truncate_fourth_byte[where index = "?n + 3"])
    show "5 < ?n + 5" using n by simp
    show "?b ! (?n + 5 - 1) = 0" by (simp add: nth_append)
    show "\<not> ?b ! (?n + 5 - 2) < 128" by (simp add: nth_append)
    show "0 < ?n + 3" by simp
    show "?n + 3 \<le> ?n + 5 - 2" by simp
    show "\<forall>k. ?n + 3 < k \<and> k \<le> ?n + 5 - 2 \<longrightarrow> \<not> is_starting_byte (?b ! k)" by auto
    show "?b ! (?n + 3) = 0xED" by (rule b(4))
    show "3 \<le> ?n + 3" by simp
    show "?b ! (?n + 3 - 3) = 0xED" by (simp add: nth_append)
    show "0xA0 \<le> ?b ! (?n + 3 - 2)" "?b ! (?n + 3 - 2) \<le> 0xAF" by (simp_all add: nth_append)
    show "0x80 \<le> ?b ! (?n + 3 - 1)" "?b ! (?n + 3 - 1) \<le> 0xBF" by (simp_all add: nth_append)
  qed
  then show ?thesis by simp
qed

text \<open>
  Claim C5. In \<^verbatim>\<open>UTF8::truncate_to_legal_utf8\<close>, called within its preconditions on a buffer
  whose last byte before the terminator is not ASCII: when the candidate that the
  backward scan finds (the last index \<open>index\<close> in \<open>1..len - 2\<close> holding a starting byte) holds
  \<open>0xED\<close>, at least 3 bytes precede it, and those 3 bytes are \<open>0xED\<close>, a byte in \<open>0xA0..0xAF\<close>
  and a byte in \<open>0x80..0xBF\<close>, the NUL is written 3 bytes before the candidate, at the start
  of the 6-byte unit, and nowhere else. In particular a buffer that ends with
  \<open>ED A0 BD ED 00\<close> loses all 4 trailing bytes: the NUL replaces the first \<open>ED\<close>.
\<close>

theorem C5_truncate_six_byte_unit:
  "(5 < len \<and> len \<le> length buffer \<and> buffer ! (len - 1) = 0 \<and> \<not> buffer ! (len - 2) < 128
      \<and> 0 < index \<and> index \<le> len - 2
      \<and> (\<forall>k. index < k \<and> k \<le> len - 2 \<longrightarrow> \<not> is_starting_byte (buffer ! k))
      \<and> buffer ! index = 0xED \<and> 3 \<le> index \<and> buffer ! (index - 3) = 0xED
      \<and> 0xA0 \<le> buffer ! (index - 2) \<and> buffer ! (index - 2) \<le> 0xAF
      \<and> 0x80 \<le> buffer ! (index - 1) \<and> buffer ! (index - 1) \<le> 0xBF
     \<longrightarrow> truncate_to_legal_utf8 buffer len = Inr (buffer[index - 3 := 0]))
   \<and> (pre \<noteq> [] \<longrightarrow>
        truncate_to_legal_utf8 (pre @ [0xED, 0xA0, 0xBD, 0xED, 0]) (length pre + 5)
          = Inr (pre @ [0, 0xA0, 0xBD, 0xED, 0]))"
  using truncate_fourth_byte[of len buffer index] truncate_high_surrogate_then_ED[of pre]
  by blast

theorem C5_truncate_six_byte_unit_witness:
  "truncate_to_legal_utf8 [0x41, 0x42, 0xED, 0xA0, 0xBD, 0xED, 0x80, 0] 8
     = Inr ([0x41, 0x42, 0xED, 0xA0, 0xBD, 0xED, 0x80, 0][5 - 3 := 0])
   \<and> truncate_to_legal_utf8 ([0x41] @ [0xED, 0xA0, 0xBD, 0xED, 0]) (length [0x41 :: u_char] + 5)
       = Inr ([0x41] @ [0, 0xA0, 0xBD, 0xED, 0])"
proof -
  have "\<forall>k. 5 < k \<and> k \<le> 8 - 2 \<longrightarrow> \<not> is_starting_byte ([0x41, 0x42, 0xED, 0xA0, 0xBD, 0xED, 0x80, 0] ! k)"
  proof (intro allI impI)
    fix k :: nat assume "5 < k \<and> k \<le> 8 - 2"
    then have "k = 6" by simp
    then show "\<not> is_starting_byte ([0x41, 0x42, 0xED, 0xA0, 0xBD, 0xED, 0x80, 0] ! k)"
      by (simp add: is_starting_byte_def)
  qed
  then show ?thesis
    using C5_truncate_six_byte_unit[where len=8 and buffer="[0x41, 0x42, 0xED, 0xA0, 0xBD, 0xED, 0x80, 0]"
        and index=5 and pre="[0x41]"]
    by simp
qed

text \<open>
  Claim C6, as amended. For every buffer within the preconditions (\<open>len > 5\<close>, the byte at
  \<open>len - 1\<close> is \<open>0x00\<close>) whose last bytes before the terminator are \<open>E2 82\<close>,
  \<^verbatim>\<open>UTF8::truncate_to_legal_utf8\<close> overwrites the \<open>E2\<close> byte with \<open>0x00\<close> and changes nothing
  else: the result ends exactly before \<open>E2\<close>, is still NUL-terminated, the bytes before
  the new terminator are unchanged, and its counted contents pass \<^verbatim>\<open>is_legal_utf8\<close> exactly
  when the bytes before \<open>E2\<close> passed it in the incoming buffer (the function does not
  validate them; its comment requires an incoming buffer that was valid before it was cut).
\<close>

theorem C6_truncate_partial_three_byte:
  assumes "5 < len" and "len \<le> length buffer" and "buffer ! (len - 1) = 0"
    and "buffer ! (len - 3) = 0xE2" and "buffer ! (len - 2) = 0x82"
  shows "\<exists>result. truncate_to_legal_utf8 buffer len = Inr result
           \<and> result = buffer[len - 3 := 0]
           \<and> result ! (len - 3) = 0 \<and> result ! (len - 1) = 0
           \<and> take (len - 3) result = take (len - 3) buffer
           \<and> is_legal_utf8 result (len - 3) v = is_legal_utf8 buffer (len - 3) v"
proof -
  let ?r = "buffer[len - 3 := 0]"
  have n82: "\<not> buffer ! (len - 2) < 128" "\<not> is_starting_byte (buffer ! (len - 2))"
    using assms(5) by (simp_all add: is_starting_byte_def)
  have sb: "is_starting_byte (buffer ! (len - 3))" "buffer ! (len - 3) \<noteq> 0xED"
    using assms(4) by (simp_all add: is_starting_byte_def)
  have "truncate_to_legal_utf8 buffer len = truncate_scan buffer (len - 2)"
    using assms(1,3) n82 by (simp add: truncate_to_legal_utf8_def)
  also have "\<dots> = truncate_scan buffer (len - 3)"
  proof (rule truncate_scan_skip)
    show "len - 3 \<le> len - 2" by simp
    show "\<forall>k. len - 3 < k \<and> k \<le> len - 2 \<longrightarrow> \<not> is_starting_byte (buffer ! k)"
    proof (intro allI impI)
      fix k assume "len - 3 < k \<and> k \<le> len - 2"
      then have "k = len - 2" using assms(1) by linarith
      then show "\<not> is_starting_byte (buffer ! k)" using n82 by simp
    qed
  qed
  also have "\<dots> = Inr ?r"
    using assms(1) sb by (intro truncate_scan_plain) simp_all
  finally have t: "truncate_to_legal_utf8 buffer len = Inr ?r" .
  have r1: "?r ! (len - 3) = 0" using assms(1,2) by simp
  have r2: "?r ! (len - 1) = 0" using assms(1,2,3) by simp
  have r3: "take (len - 3) ?r = take (len - 3) buffer" by simp
  have "\<forall>k<len - 3. ?r ! k = buffer ! k" by simp
  then have r4: "is_legal_utf8 ?r (len - 3) v = is_legal_utf8 buffer (len - 3) v"
    using assms(2) by (intro is_legal_utf8_cong) simp_all
  show ?thesis using t r1 r2 r3 r4 by blast
qed

theorem C6_truncate_partial_three_byte_witness:
  "\<exists>result. truncate_to_legal_utf8 [0x41, 0x42, 0x43, 0xE2, 0x82, 0] 6 = Inr result
           \<and> result = [0x41, 0x42, 0x43, 0xE2, 0x82, 0][6 - 3 := 0]
           \<and> result ! (6 - 3) = 0 \<and> result ! (6 - 1) = 0
           \<and> take (6 - 3) result = take (6 - 3) [0x41, 0x42, 0x43, 0xE2, 0x82, 0]
           \<and> is_legal_utf8 result (6 - 3) False = is_legal_utf8 [0x41, 0x42, 0x43, 0xE2, 0x82, 0] (6 - 3) False"
  by (rule C6_truncate_partial_three_byte[of 6 "[0x41, 0x42, 0x43, 0xE2, 0x82, 0]"]) simp_all

text \<open>
  Claim C6 as stated asks every such buffer to pass \<^verbatim>\<open>is_legal_utf8\<close> after the repair. The
  buffer \<open>41 80 42 E2 82 00\<close> meets the stated preconditions; the repair gives
  \<open>41 80 42 00 82 00\<close>, whose counted contents \<open>41 80 42\<close> hold a continuation byte without
  a lead byte and are rejected in both modes.
\<close>

lemma C6_cex_truncate:
  "truncate_to_legal_utf8 [0x41, 0x80, 0x42, 0xE2, 0x82, 0] 6 = Inr [0x41, 0x80, 0x42, 0, 0x82, 0]"
  by code_simp

lemma C6_cex_illegal:
  "\<not> is_legal_utf8 [0x41, 0x80, 0x42, 0, 0x82, 0] 3 True" "\<not> is_legal_utf8 [0x41, 0x80, 0x42, 0, 0x82, 0] 3 False"
  by code_simp+

theorem C6_as_stated_counterexample:
  "5 < (6::nat) \<and> [0x41, 0x80, 0x42, 0xE2, 0x82, 0 :: u_char] ! (6 - 1) = 0
   \<and> [0x41, 0x80, 0x42, 0xE2, 0x82, 0 :: u_char] ! (6 - 3) = 0xE2
   \<and> [0x41, 0x80, 0x42, 0xE2, 0x82, 0 :: u_char] ! (6 - 2) = 0x82
   \<and> truncate_to_legal_utf8 [0x41, 0x80, 0x42, 0xE2, 0x82, 0] 6 = Inr [0x41, 0x80, 0x42, 0, 0x82, 0]
   \<and> \<not> is_legal_utf8 [0x41, 0x80, 0x42, 0, 0x82, 0] 3 True
   \<and> \<not> is_legal_utf8 [0x41, 0x80, 0x42, 0, 0x82, 0] 3 False"
  using C6_cex_truncate C6_cex_illegal by simp

section \<open>The bounded writer at both element types\<close>

lemma sint_ge_1: "(sint (c::jbyte) \<ge> 1) \<longleftrightarrow> (1 \<le> unat c \<and> unat c \<le> 127)"
  by (rule byte_exhaust[of _ c]) code_simp

lemma unat_widen: "unat ((scast (c::jbyte) :: jchar) AND 0xff) = unat c"
  by (rule byte_exhaust[of _ c]) code_simp

lemma utf8_size_jbyte_cases:
  "(utf8_size_jbyte c = 1 \<and> 1 \<le> unat c \<and> unat c \<le> 127)
   \<or> (utf8_size_jbyte c = 2 \<and> utf8_size (scast c AND 0xff) = 2)"
proof (cases "sint c \<ge> 1")
  case True
  then show ?thesis using sint_ge_1[of c] by (simp add: utf8_size_jbyte_def)
next
  case False
  then have "\<not> (1 \<le> unat c \<and> unat c \<le> 127)" using sint_ge_1[of c] by simp
  moreover have "unat c < 256" by (rule unat8_less)
  ultimately have "utf8_size (scast c AND 0xff) = 2"
    unfolding utf8_size_unat unat_widen by auto
  then show ?thesis using False by (simp add: utf8_size_jbyte_def)
qed

lemma length_utf8_bytes_jbyte: "length (utf8_bytes_jbyte c) = utf8_size_jbyte c"
  using utf8_size_jbyte_cases[of c] length_utf8_bytes[of "scast c AND 0xff"]
  by (auto simp: utf8_bytes_jbyte_def)

lemma utf8_bytes_jbyte_nonzero: "0 \<notin> set (utf8_bytes_jbyte c)"
proof (cases "utf8_size_jbyte c = 1")
  case True
  then have "1 \<le> unat c" using utf8_size_jbyte_cases[of c] by auto
  then have "c \<noteq> 0" by (auto simp: byte_eq_0)
  then show ?thesis using True by (simp add: utf8_bytes_jbyte_def)
next
  case False
  then show ?thesis using utf8_bytes_nonzero by (simp add: utf8_bytes_jbyte_def)
qed

lemma utf8_length_jbyte_loop_acc: "utf8_length_jbyte_loop cs r = r + utf8_length_jbyte_loop cs 0"
proof (induction cs arbitrary: r)
  case Nil show ?case by simp
next
  case (Cons c cs)
  show ?case using Cons.IH[of "r + utf8_size_jbyte c"] Cons.IH[of "utf8_size_jbyte c"] by simp
qed

lemma utf8_length_jbyte_Nil [simp]: "utf8_length_jbyte [] = 0"
  by (simp add: utf8_length_jbyte_def)

lemma utf8_length_jbyte_Cons [simp]:
  "utf8_length_jbyte (c # cs) = utf8_size_jbyte c + utf8_length_jbyte cs"
  using utf8_length_jbyte_loop_acc[of cs "utf8_size_jbyte c"] by (simp add: utf8_length_jbyte_def)

lemma utf8_encode_jbyte_Nil [simp]: "utf8_encode_jbyte [] = []"
  by (simp add: utf8_encode_jbyte_def)

lemma utf8_encode_jbyte_Cons [simp]:
  "utf8_encode_jbyte (c # cs) = utf8_bytes_jbyte c @ utf8_encode_jbyte cs"
  by (simp add: utf8_encode_jbyte_def)

lemma length_utf8_encode_jbyte: "length (utf8_encode_jbyte base) = utf8_length_jbyte base"
  by (induction base) (simp_all add: length_utf8_bytes_jbyte)

lemma utf8_encode_jbyte_nonzero: "0 \<notin> set (utf8_encode_jbyte units)"
  using utf8_bytes_jbyte_nonzero by (auto simp: utf8_encode_jbyte_def)

lemma utf8_length_fit_jbyte:
  "0 < buflen \<Longrightarrow> utf8_length_jbyte (as_utf8_fit_jbyte buflen units) < buflen"
proof (induction units arbitrary: buflen)
  case Nil then show ?case by simp
next
  case (Cons c cs)
  show ?case
  proof (cases "utf8_size_jbyte c \<ge> buflen")
    case True then show ?thesis using Cons.prems by simp
  next
    case False
    then have "utf8_length_jbyte (as_utf8_fit_jbyte (buflen - utf8_size_jbyte c) cs) < buflen - utf8_size_jbyte c"
      by (intro Cons.IH) simp
    then show ?thesis using False by simp
  qed
qed

lemma as_utf8_jbyte_step:
  assumes "\<not> utf8_size_jbyte c \<ge> buflen" "p + utf8_size_jbyte c \<le> length mem"
  shows "as_utf8_jbyte_loop mem p buflen (c # cs)
     = as_utf8_jbyte_loop (take p mem @ utf8_bytes_jbyte c @ drop (p + utf8_size_jbyte c) mem)
         (p + utf8_size_jbyte c) (buflen - utf8_size_jbyte c) cs"
proof (cases "utf8_size_jbyte c = 1")
  case True
  have p: "p < length mem" using assms(2) True by simp
  have "mem[p := c] = take p mem @ c # drop (Suc p) mem" using p by (rule upd_conv_take_nth_drop)
  then have "store mem p c = Some (take p mem @ [c] @ drop (p + 1) mem)" using p by (simp add: store_def)
  then show ?thesis using True assms(1) by (simp add: utf8_bytes_jbyte_def Let_def)
next
  case False
  then have sz: "utf8_size_jbyte c = 2" "utf8_size (scast c AND 0xff) = 2"
    using utf8_size_jbyte_cases[of c] by auto
  have "utf8_write mem p (scast c AND 0xff)
      = Some (take p mem @ utf8_bytes (scast c AND 0xff) @ drop (p + 2) mem, p + 2)"
    using utf8_write_eq[of p "scast c AND 0xff" mem] assms(2) sz by simp
  then show ?thesis using sz assms(1) by (simp add: utf8_bytes_jbyte_def Let_def)
qed

lemma as_utf8_jbyte_loop_eq:
  "p + buflen \<le> length mem \<Longrightarrow> 0 < buflen \<Longrightarrow>
   as_utf8_jbyte_loop mem p buflen units
     = Inr (take p mem @ utf8_encode_jbyte (as_utf8_fit_jbyte buflen units)
               @ drop (p + utf8_length_jbyte (as_utf8_fit_jbyte buflen units)) mem,
             p + utf8_length_jbyte (as_utf8_fit_jbyte buflen units))"
proof (induction units arbitrary: mem p buflen)
  case Nil
  then show ?case by simp
next
  case (Cons c cs)
  show ?case
  proof (cases "utf8_size_jbyte c \<ge> buflen")
    case True
    then show ?thesis by (simp add: Let_def)
  next
    case False
    let ?sz = "utf8_size_jbyte c"
    let ?m = "take p mem @ utf8_bytes_jbyte c @ drop (p + ?sz) mem"
    let ?q = "p + ?sz"
    let ?fit = "as_utf8_fit_jbyte (buflen - ?sz) cs"
    have fits: "p + ?sz \<le> length mem" using Cons.prems False by simp
    have len: "length ?m = length mem" using fits by (simp add: length_utf8_bytes_jbyte)
    have tk: "take ?q ?m = take p mem @ utf8_bytes_jbyte c" using fits by (simp add: length_utf8_bytes_jbyte)
    have dr: "drop (?q + utf8_length_jbyte ?fit) ?m = drop (p + (?sz + utf8_length_jbyte ?fit)) mem"
      using fits by (simp add: length_utf8_bytes_jbyte ac_simps)
    have "as_utf8_jbyte_loop ?m ?q (buflen - ?sz) cs
            = Inr (take ?q ?m @ utf8_encode_jbyte ?fit @ drop (?q + utf8_length_jbyte ?fit) ?m,
                   ?q + utf8_length_jbyte ?fit)"
      using Cons.prems False len by (intro Cons.IH) simp_all
    then have ih: "as_utf8_jbyte_loop ?m ?q (buflen - ?sz) cs
            = Inr (take p mem @ utf8_bytes_jbyte c @ utf8_encode_jbyte ?fit
                     @ drop (p + (?sz + utf8_length_jbyte ?fit)) mem,
                    p + (?sz + utf8_length_jbyte ?fit))"
      unfolding tk dr by (simp only: append_assoc add.assoc)
    have e1: "as_utf8_jbyte_loop mem p buflen (c # cs) = as_utf8_jbyte_loop ?m ?q (buflen - ?sz) cs"
      using False fits by (rule as_utf8_jbyte_step)
    have e2: "as_utf8_fit_jbyte buflen (c # cs) = c # ?fit" using False by simp
    show ?thesis unfolding e1 ih e2 by (simp add: add.assoc)
  qed
qed

lemma as_utf8_jbyte_eq:
  assumes "0 < buflen" "buf + buflen \<le> length mem"
  shows "as_utf8_jbyte base mem buf buflen
     = Inr (take buf mem @ utf8_encode_jbyte (as_utf8_fit_jbyte buflen base)
              @ 0 # drop (buf + utf8_length_jbyte (as_utf8_fit_jbyte buflen base) + 1) mem)"
proof -
  let ?fit = "as_utf8_fit_jbyte buflen base"
  let ?n = "buf + utf8_length_jbyte ?fit"
  have lt: "utf8_length_jbyte ?fit < buflen" using assms(1) by (rule utf8_length_fit_jbyte)
  then have n: "?n < length mem" using assms(2) by simp
  have "length (take buf mem @ utf8_encode_jbyte ?fit) = ?n" using n by (simp add: length_utf8_encode_jbyte)
  moreover have "drop ?n mem = mem ! ?n # drop (?n + 1) mem"
    using n by (simp add: Cons_nth_drop_Suc)
  ultimately have "store (take buf mem @ utf8_encode_jbyte ?fit @ drop ?n mem) ?n 0
       = Some (take buf mem @ utf8_encode_jbyte ?fit @ 0 # drop (?n + 1) mem)"
    using store_append[of "take buf mem @ utf8_encode_jbyte ?fit" "mem ! ?n" "drop (?n + 1) mem" 0] by simp
  then show ?thesis using assms by (simp add: as_utf8_jbyte_def as_utf8_jbyte_loop_eq)
qed

lemma as_utf8_fit_jbyte_take:
  "\<exists>k\<le>length units. as_utf8_fit_jbyte buflen units = take k units
      \<and> (\<forall>j<k. utf8_size_jbyte (units ! j) < buflen - utf8_length_jbyte (take j units))
      \<and> (k < length units \<longrightarrow> \<not> utf8_size_jbyte (units ! k) < buflen - utf8_length_jbyte (take k units))"
proof (induction units arbitrary: buflen)
  case Nil
  then show ?case by simp
next
  case (Cons c cs)
  show ?case
  proof (cases "utf8_size_jbyte c \<ge> buflen")
    case True
    then show ?thesis by (intro exI[of _ 0]) simp
  next
    case False
    obtain k where k: "k \<le> length cs" "as_utf8_fit_jbyte (buflen - utf8_size_jbyte c) cs = take k cs"
      "\<forall>j<k. utf8_size_jbyte (cs ! j) < buflen - utf8_size_jbyte c - utf8_length_jbyte (take j cs)"
      "k < length cs \<longrightarrow> \<not> utf8_size_jbyte (cs ! k) < buflen - utf8_size_jbyte c - utf8_length_jbyte (take k cs)"
      using Cons.IH[of "buflen - utf8_size_jbyte c"] by blast
    have "\<forall>j<Suc k. utf8_size_jbyte ((c # cs) ! j) < buflen - utf8_length_jbyte (take j (c # cs))"
    proof (intro allI impI)
      fix j assume "j < Suc k"
      then show "utf8_size_jbyte ((c # cs) ! j) < buflen - utf8_length_jbyte (take j (c # cs))"
        using False k(3) by (cases j) auto
    qed
    then show ?thesis using False k by (intro exI[of _ "Suc k"]) auto
  qed
qed

lemma as_utf8_fit_jbyte_all:
  "utf8_length_jbyte units < buflen \<Longrightarrow> as_utf8_fit_jbyte buflen units = units"
  by (induction units arbitrary: buflen) auto

lemma as_utf8_alloc_jbyte_eq:
  "as_utf8_alloc_jbyte base junk = Inr (utf8_encode_jbyte base @ [0], utf8_length_jbyte base)"
proof -
  let ?L = "utf8_length_jbyte base"
  let ?buf = "map junk [0..<?L + 1]"
  have "as_utf8_jbyte base ?buf 0 (?L + 1)
          = Inr (take 0 ?buf @ utf8_encode_jbyte (as_utf8_fit_jbyte (?L + 1) base)
                  @ 0 # drop (0 + utf8_length_jbyte (as_utf8_fit_jbyte (?L + 1) base) + 1) ?buf)"
    by (rule as_utf8_jbyte_eq) simp_all
  then have r: "as_utf8_jbyte base ?buf 0 (?L + 1) = Inr (utf8_encode_jbyte base @ [0])"
    by (simp add: as_utf8_fit_jbyte_all)
  have "strlen (utf8_encode_jbyte base @ [0]) 0 = Some (length (utf8_encode_jbyte base))"
    using utf8_encode_jbyte_nonzero by (rule strlen_terminated)
  then show ?thesis using r by (simp add: as_utf8_alloc_jbyte_def length_utf8_encode_jbyte Let_def)
qed

lemma as_utf8_jbyte_bounded:
  assumes "0 < buflen" and "buf + buflen \<le> length mem"
  shows "(\<exists>k n. k \<le> length bytes \<and> n = utf8_length_jbyte (take k bytes) \<and> n < buflen
            \<and> (\<forall>j<k. utf8_size_jbyte (bytes ! j) < buflen - utf8_length_jbyte (take j bytes))
            \<and> (k < length bytes \<longrightarrow> \<not> utf8_size_jbyte (bytes ! k) < buflen - n)
            \<and> as_utf8_jbyte bytes mem buf buflen
                 = Inr (take buf mem @ utf8_encode_jbyte (take k bytes) @ 0 # drop (buf + n + 1) mem))
         \<and> as_utf8_alloc_jbyte bytes junk = Inr (utf8_encode_jbyte bytes @ [0], utf8_length_jbyte bytes)
         \<and> strlen (utf8_encode_jbyte bytes @ [0]) 0 = Some (utf8_length_jbyte bytes)"
proof -
  obtain k where k: "k \<le> length bytes" "as_utf8_fit_jbyte buflen bytes = take k bytes"
      "\<forall>j<k. utf8_size_jbyte (bytes ! j) < buflen - utf8_length_jbyte (take j bytes)"
      "k < length bytes \<longrightarrow> \<not> utf8_size_jbyte (bytes ! k) < buflen - utf8_length_jbyte (take k bytes)"
    using as_utf8_fit_jbyte_take[of bytes buflen] by blast
  have n: "utf8_length_jbyte (take k bytes) < buflen"
    using utf8_length_fit_jbyte[OF assms(1), of bytes] k(2) by simp
  have r: "as_utf8_jbyte bytes mem buf buflen
       = Inr (take buf mem @ utf8_encode_jbyte (take k bytes)
                @ 0 # drop (buf + utf8_length_jbyte (take k bytes) + 1) mem)"
    using as_utf8_jbyte_eq[OF assms, of bytes] k(2) by simp
  have s: "strlen (utf8_encode_jbyte bytes @ [0]) 0 = Some (utf8_length_jbyte bytes)"
    using strlen_terminated[OF utf8_encode_jbyte_nonzero, of bytes "[]"]
    by (simp add: length_utf8_encode_jbyte)
  show ?thesis using k n r s as_utf8_alloc_jbyte_eq by blast
qed

text \<open>The \<^verbatim>\<open>jbyte\<close> writer on the units \<open>41 80 00 FF\<close>: with room for all of them, and
  with a capacity of 5, where the third unit no longer fits.\<close>

lemma as_utf8_jbyte_example:
  "as_utf8_jbyte [0x41, 0x80, 0, 0xFF] (replicate 9 7) 0 9
     = Inr [0x41, 0xC2, 0x80, 0xC0, 0x80, 0xC3, 0xBF, 0, 7]"
  by code_simp

lemma as_utf8_jbyte_truncated_example:
  "as_utf8_jbyte [0x41, 0x80, 0, 0xFF] (replicate 9 7) 0 5
     = Inr [0x41, 0xC2, 0x80, 0, 7, 7, 7, 7, 7]"
  by code_simp

text \<open>
  Claim C9. The bounded writer \<^verbatim>\<open>UNICODE::as_utf8(base, length, buf, buflen)\<close> with
  \<open>buflen > 0\<close>, on a buffer that has \<open>buflen\<close> bytes at \<open>buf\<close>, returns without an
  out-of-bounds write, for an array of \<^verbatim>\<open>jchar\<close> (\<open>base\<close>) and for an array of \<^verbatim>\<open>jbyte\<close>
  (\<open>bytes\<close>). It writes the encodings of the first \<open>k\<close> code units in order, where
  every unit before \<open>k\<close> had an encoded size below the capacity remaining when it was
  reached and unit \<open>k\<close>, if there is one, did not; it then writes \<open>0x00\<close> at offset \<open>n\<close>,
  the number of bytes written, and \<open>n < buflen\<close>. All other bytes of the memory are as
  before, so nothing is written at or beyond \<open>buf + buflen\<close> (the statement includes
  memories that end exactly there). The auto-sizing overload passes its assertion at
  both instantiations of the template: the string it returns has \<^verbatim>\<open>strlen\<close> equal to
  \<^verbatim>\<open>utf8_length\<close> of the input.
\<close>

theorem C9_as_utf8_bounded:
  assumes "0 < buflen" and "buf + buflen \<le> length mem"
  shows "((\<exists>k n. k \<le> length base \<and> n = utf8_length (take k base) \<and> n < buflen
            \<and> (\<forall>j<k. utf8_size (base ! j) < buflen - utf8_length (take j base))
            \<and> (k < length base \<longrightarrow> \<not> utf8_size (base ! k) < buflen - n)
            \<and> as_utf8 base mem buf buflen
                 = Inr (take buf mem @ utf8_encode (take k base) @ 0 # drop (buf + n + 1) mem))
          \<and> as_utf8_alloc base junk = Inr (utf8_encode base @ [0], utf8_length base)
          \<and> strlen (utf8_encode base @ [0]) 0 = Some (utf8_length base))
       \<and> ((\<exists>k n. k \<le> length bytes \<and> n = utf8_length_jbyte (take k bytes) \<and> n < buflen
            \<and> (\<forall>j<k. utf8_size_jbyte (bytes ! j) < buflen - utf8_length_jbyte (take j bytes))
            \<and> (k < length bytes \<longrightarrow> \<not> utf8_size_jbyte (bytes ! k) < buflen - n)
            \<and> as_utf8_jbyte bytes mem buf buflen
                 = Inr (take buf mem @ utf8_encode_jbyte (take k bytes) @ 0 # drop (buf + n + 1) mem))
          \<and> as_utf8_alloc_jbyte bytes junk = Inr (utf8_encode_jbyte bytes @ [0], utf8_length_jbyte bytes)
          \<and> strlen (utf8_encode_jbyte bytes @ [0]) 0 = Some (utf8_length_jbyte bytes))"
  using as_utf8_jchar_bounded[OF assms, of base junk] as_utf8_jbyte_bounded[OF assms, of bytes junk]
  by (rule conjI)

theorem C9_as_utf8_bounded_witness:
  "((\<exists>k n. k \<le> length [0x41, 0x20AC, 0x42 :: jchar] \<and> n = utf8_length (take k [0x41, 0x20AC, 0x42]) \<and> n < 5
            \<and> (\<forall>j<k. utf8_size ([0x41, 0x20AC, 0x42] ! j) < 5 - utf8_length (take j [0x41, 0x20AC, 0x42]))
            \<and> (k < length [0x41, 0x20AC, 0x42 :: jchar] \<longrightarrow> \<not> utf8_size ([0x41, 0x20AC, 0x42] ! k) < 5 - n)
            \<and> as_utf8 [0x41, 0x20AC, 0x42] (replicate 10 7) 0 5
                 = Inr (take 0 (replicate 10 7) @ utf8_encode (take k [0x41, 0x20AC, 0x42]) @ 0 # drop (0 + n + 1) (replicate 10 7)))
          \<and> as_utf8_alloc [0x41, 0x20AC, 0x42] (\<lambda>_. 9) = Inr (utf8_encode [0x41, 0x20AC, 0x42] @ [0], utf8_length [0x41, 0x20AC, 0x42])
          \<and> strlen (utf8_encode [0x41, 0x20AC, 0x42] @ [0]) 0 = Some (utf8_length [0x41, 0x20AC, 0x42]))
       \<and> ((\<exists>k n. k \<le> length [0x41, 0x80, 0, 0xFF :: jbyte] \<and> n = utf8_length_jbyte (take k [0x41, 0x80, 0, 0xFF]) \<and> n < 5
            \<and> (\<forall>j<k. utf8_size_jbyte ([0x41, 0x80, 0, 0xFF] ! j) < 5 - utf8_length_jbyte (take j [0x41, 0x80, 0, 0xFF]))
            \<and> (k < length [0x41, 0x80, 0, 0xFF :: jbyte] \<longrightarrow> \<not> utf8_size_jbyte ([0x41, 0x80, 0, 0xFF] ! k) < 5 - n)
            \<and> as_utf8_jbyte [0x41, 0x80, 0, 0xFF] (replicate 10 7) 0 5
                 = Inr (take 0 (replicate 10 7) @ utf8_encode_jbyte (take k [0x41, 0x80, 0, 0xFF]) @ 0 # drop (0 + n + 1) (replicate 10 7)))
          \<and> as_utf8_alloc_jbyte [0x41, 0x80, 0, 0xFF] (\<lambda>_. 9) = Inr (utf8_encode_jbyte [0x41, 0x80, 0, 0xFF] @ [0], utf8_length_jbyte [0x41, 0x80, 0, 0xFF])
          \<and> strlen (utf8_encode_jbyte [0x41, 0x80, 0, 0xFF] @ [0]) 0 = Some (utf8_length_jbyte [0x41, 0x80, 0, 0xFF]))"
  by (rule C9_as_utf8_bounded[of 5 0 "replicate 10 7" "[0x41, 0x20AC, 0x42]" "\<lambda>_. 9" "[0x41, 0x80, 0, 0xFF]"]) simp_all

section \<open>The quoted-ASCII reader does not return\<close>

text \<open>On the empty string the function returns its argument.\<close>

lemma from_quoted_ascii_empty: "from_quoted_ascii (0 # rest) junk = Some (Inr Original)"
  by (simp add: from_quoted_ascii_def scan_printable.simps load_def)

text \<open>A loop that returns was left through one of its exits; the first loop has none
  for a printable byte, the inner loop without a buffer none for a byte other than
  \<open>0x00\<close> and the backslash.\<close>

lemma scan_printable_returns:
  assumes "scan_printable str ptr = Some r"
  shows "\<forall>c. load str ptr = Some c \<longrightarrow> (c = 0 \<or> unat c < 32 \<or> 127 \<le> unat c) \<and> r = Inr ptr"
  by (rule scan_printable.raw_induct
        [where P = "\<lambda>str ptr r. \<forall>c. load str ptr = Some c
                       \<longrightarrow> (c = 0 \<or> unat c < 32 \<or> 127 \<le> unat c) \<and> r = Inr ptr", OF _ assms])
     (auto split: option.splits if_splits)

lemma unquote_loop_stuck:
  assumes "unquote_loop str ptr len buffer = Some r"
  shows "\<forall>c. load str ptr = Some c \<and> c \<noteq> 0 \<and> c \<noteq> 0x5C \<and> buffer = None \<longrightarrow> False"
  by (rule unquote_loop.raw_induct
        [where P = "\<lambda>str ptr len buffer r.
                      \<forall>c. load str ptr = Some c \<and> c \<noteq> 0 \<and> c \<noteq> 0x5C \<and> buffer = None \<longrightarrow> False",
         OF _ assms])
     (simp split: option.splits if_splits, blast+)

lemma scan_printable_diverges:
  "load str ptr = Some c \<Longrightarrow> 32 \<le> unat c \<Longrightarrow> unat c < 127 \<Longrightarrow> scan_printable str ptr = None"
  using scan_printable_returns[of str ptr] by (cases "scan_printable str ptr") auto

lemma scan_printable_stops:
  "load str ptr = Some c \<Longrightarrow> unat c < 32 \<or> 127 \<le> unat c \<Longrightarrow> scan_printable str ptr = Some (Inr ptr)"
  by (subst scan_printable.simps) auto

lemma unquote_loop_diverges:
  "load str ptr = Some c \<Longrightarrow> c \<noteq> 0 \<Longrightarrow> c \<noteq> 0x5C \<Longrightarrow> unquote_loop str ptr len None = None"
  using unquote_loop_stuck[of str ptr len None] by (cases "unquote_loop str ptr len None") auto

lemma printable_not_backslash: "unat (c::u_char) < 32 \<or> 127 \<le> unat c \<Longrightarrow> c \<noteq> 0x5C"
  by auto

text \<open>
  Claim C10 requires that \<^verbatim>\<open>UTF8::from_quoted_ascii\<close> terminates and returns for every
  NUL-terminated input string. The code does not: on every string whose first byte is
  not \<open>0x00\<close> the call does not return. If the first byte is printable ASCII the first
  loop repeats on it; otherwise the inner loop of round 0 repeats on it, since that
  byte is not a backslash. The string \<^verbatim>\<open>"a"\<close>, bytes \<open>61 00\<close>, is such an input.
\<close>

theorem C10_from_quoted_ascii_diverges:
  assumes "load str 0 = Some c" and "c \<noteq> 0"
  shows "from_quoted_ascii str junk = None"
proof (cases "32 \<le> unat c \<and> unat c < 127")
  case True
  then have "scan_printable str 0 = None" using assms(1) scan_printable_diverges by blast
  then show ?thesis by (simp add: from_quoted_ascii_def)
next
  case False
  then have np: "unat c < 32 \<or> 127 \<le> unat c" by auto
  have s: "scan_printable str 0 = Some (Inr 0)" using assms(1) np by (rule scan_printable_stops)
  have "c \<noteq> 0x5C" using np by (rule printable_not_backslash)
  then have "unquote_loop str 0 0 None = None" using assms unquote_loop_diverges by blast
  then show ?thesis using s assms by (simp add: from_quoted_ascii_def)
qed

theorem C10_from_quoted_ascii_diverges_witness:
  "load [0x61, 0] 0 = Some (0x61 :: u_char) \<and> (0x61 :: u_char) \<noteq> 0
     \<and> from_quoted_ascii [0x61, 0] (\<lambda>_. 0) = None"
  using C10_from_quoted_ascii_diverges[of "[0x61, 0]" "0x61" "\<lambda>_. 0"] by (simp add: load_def)

end
